theory Spec2Isabelle
  imports Main
begin

section \<open>Text\<close>

text \<open>
  A JavaScript string is a sequence of 16-bit code units. A code unit is modelled by its
  number; nothing below depends on the bound \<open>65536\<close>, so every statement about all
  \<open>jsstr\<close> values covers every JavaScript string. \<open>js\<close> writes an ASCII literal.
\<close>

type_synonym jsstr = "nat list"

definition js :: "string \<Rightarrow> jsstr" where
  "js s = map of_char s"

abbreviation cu :: "char \<Rightarrow> nat" where
  "cu c \<equiv> of_char c"

text \<open>\<^verbatim>\<open>String.prototype.trim\<close>: white space and line terminators of ECMAScript.\<close>

definition is_js_space :: "nat \<Rightarrow> bool" where
  "is_js_space c \<longleftrightarrow>
     c = 0x09 \<or> c = 0x0A \<or> c = 0x0B \<or> c = 0x0C \<or> c = 0x0D \<or> c = 0x20 \<or> c = 0xA0 \<or>
     c = 0x1680 \<or> (0x2000 \<le> c \<and> c \<le> 0x200A) \<or> c = 0x2028 \<or> c = 0x2029 \<or>
     c = 0x202F \<or> c = 0x205F \<or> c = 0x3000 \<or> c = 0xFEFF"

definition trim :: "jsstr \<Rightarrow> jsstr" where
  "trim s = rev (dropWhile is_js_space (rev (dropWhile is_js_space s)))"

text \<open>\<^verbatim>\<open>chunk.split("\n")\<close>: the pieces between line feeds; never an empty list.\<close>

fun split_lines :: "jsstr \<Rightarrow> jsstr list" where
  "split_lines [] = [[]]"
| "split_lines (c # cs) =
     (if c = 0x0A then [] # split_lines cs
      else (case split_lines cs of l # ls \<Rightarrow> (c # l) # ls | [] \<Rightarrow> [[c]]))"

fun join :: "jsstr \<Rightarrow> jsstr list \<Rightarrow> jsstr" where
  "join sep [] = []"
| "join sep [x] = x"
| "join sep (x # y # ys) = x @ sep @ join sep (y # ys)"

section \<open>JSON values\<close>

text \<open>
  The values \<^verbatim>\<open>JSON.parse\<close> can return. A number keeps the text of its literal: the
  double it denotes, and how that prints, belong to the host (see \<open>host\<close> below).
  An object is the list of its own properties in enumeration order.
\<close>

datatype json =
    JNull
  | JBool bool
  | JNumber jsstr
  | JString jsstr
  | JArray "json list"
  | JObject "(jsstr \<times> json) list"

text \<open>A JavaScript value read from a property: \<^verbatim>\<open>undefined\<close> or a JSON value.\<close>

datatype jsval = Undefined | J json

datatype js_error =
    SyntaxError
  | TypeError
  | StorageError
  | NetworkError
  | Error jsstr

subsection \<open>Property order of ordinary objects\<close>

definition is_digit :: "nat \<Rightarrow> bool" where
  "is_digit c \<longleftrightarrow> 48 \<le> c \<and> c \<le> 57"

definition decimal_value :: "jsstr \<Rightarrow> nat" where
  "decimal_value k = foldl (\<lambda>a d. a * 10 + (d - 48)) 0 k"

text \<open>An array index: a canonical decimal numeral below \<open>2^32 - 1\<close>.\<close>

definition is_array_index :: "jsstr \<Rightarrow> bool" where
  "is_array_index k \<longleftrightarrow>
     (case k of
        [] \<Rightarrow> False
      | d # ds \<Rightarrow>
          list_all is_digit k \<and> (if d = 48 then ds = [] else True) \<and>
          length k \<le> 10 \<and> decimal_value k < 4294967295)"

fun insert_index :: "jsstr \<Rightarrow> json \<Rightarrow> (jsstr \<times> json) list \<Rightarrow> (jsstr \<times> json) list" where
  "insert_index k v [] = [(k, v)]"
| "insert_index k v ((k', v') # kvs) =
     (if is_array_index k' \<and> decimal_value k' < decimal_value k
      then (k', v') # insert_index k v kvs
      else (k, v) # (k', v') # kvs)"

text \<open>
  \<^verbatim>\<open>CreateDataProperty\<close> on an object under construction: an existing key keeps its
  place and takes the new value; a new array-index key goes among the index keys in
  ascending order, which come first; any other new key goes last.
\<close>

definition obj_put :: "(jsstr \<times> json) list \<Rightarrow> jsstr \<Rightarrow> json \<Rightarrow> (jsstr \<times> json) list" where
  "obj_put kvs k v =
     (if k \<in> fst ` set kvs then map (\<lambda>(k', v'). if k' = k then (k', v) else (k', v')) kvs
      else if is_array_index k then insert_index k v kvs
      else kvs @ [(k, v)])"

section \<open>\<^verbatim>\<open>JSON.parse\<close>\<close>

definition is_json_ws :: "nat \<Rightarrow> bool" where
  "is_json_ws c \<longleftrightarrow> c = 0x09 \<or> c = 0x0A \<or> c = 0x0D \<or> c = 0x20"

definition skip_ws :: "jsstr \<Rightarrow> jsstr" where
  "skip_ws s = dropWhile is_json_ws s"

definition hex_value :: "nat \<Rightarrow> nat option" where
  "hex_value c =
     (if 48 \<le> c \<and> c \<le> 57 then Some (c - 48)
      else if 97 \<le> c \<and> c \<le> 102 then Some (c - 87)
      else if 65 \<le> c \<and> c \<le> 70 then Some (c - 55)
      else None)"

definition hex4_value :: "nat \<Rightarrow> nat \<Rightarrow> nat \<Rightarrow> nat \<Rightarrow> nat option" where
  "hex4_value a b c d =
     (case (hex_value a, hex_value b, hex_value c, hex_value d) of
        (Some x, Some y, Some z, Some w) \<Rightarrow> Some (((x * 16 + y) * 16 + z) * 16 + w)
      | _ \<Rightarrow> None)"

definition unescape :: "nat \<Rightarrow> nat option" where
  "unescape e =
     (if e = cu CHR 0x22 then Some 0x22
      else if e = cu CHR 0x5C then Some 0x5C
      else if e = cu CHR ''/'' then Some 0x2F
      else if e = cu CHR ''b'' then Some 0x08
      else if e = cu CHR ''f'' then Some 0x0C
      else if e = cu CHR ''n'' then Some 0x0A
      else if e = cu CHR ''r'' then Some 0x0D
      else if e = cu CHR ''t'' then Some 0x09
      else None)"

text \<open>
  The characters of a string literal after its opening quote, up to and including the
  closing quote. A raw control character (below \<open>0x20\<close>) is a syntax error.
\<close>

fun parse_chars :: "jsstr \<Rightarrow> (jsstr \<times> jsstr) option" where
  "parse_chars [] = None"
| "parse_chars (c # cs) =
     (if c = cu CHR 0x22 then Some ([], cs)
      else if c = cu CHR 0x5C then
        (case cs of
           [] \<Rightarrow> None
         | e # r \<Rightarrow>
             if e = cu CHR ''u'' then
               (case r of
                  a # b # x # y # r' \<Rightarrow>
                    (case hex4_value a b x y of
                       None \<Rightarrow> None
                     | Some u \<Rightarrow>
                         (case parse_chars r' of
                            None \<Rightarrow> None
                          | Some (t, rest) \<Rightarrow> Some (u # t, rest)))
                | _ \<Rightarrow> None)
             else
               (case unescape e of
                  None \<Rightarrow> None
                | Some u \<Rightarrow>
                    (case parse_chars r of
                       None \<Rightarrow> None
                     | Some (t, rest) \<Rightarrow> Some (u # t, rest))))
      else if c < 0x20 then None
      else (case parse_chars cs of
              None \<Rightarrow> None
            | Some (t, rest) \<Rightarrow> Some (c # t, rest)))"

text \<open>
  A number literal: \<^verbatim>\<open>-? (0 | [1-9][0-9]*) (. [0-9]+)? ([eE] [+-]? [0-9]+)?\<close>.
  Returns the literal's text and what follows it.
\<close>

definition parse_digits :: "jsstr \<Rightarrow> (jsstr \<times> jsstr) option" where
  "parse_digits s =
     (let ds = takeWhile is_digit s in
      if ds = [] then None else Some (ds, dropWhile is_digit s))"

definition parse_fraction :: "jsstr \<Rightarrow> (jsstr \<times> jsstr) option" where
  "parse_fraction s =
     (case s of
        c # r \<Rightarrow>
          if c = cu CHR ''.'' then
            (case parse_digits r of None \<Rightarrow> None | Some (ds, r') \<Rightarrow> Some (c # ds, r'))
          else Some ([], s)
      | [] \<Rightarrow> Some ([], s))"

definition parse_exponent :: "jsstr \<Rightarrow> (jsstr \<times> jsstr) option" where
  "parse_exponent s =
     (case s of
        c # r \<Rightarrow>
          if c = cu CHR ''e'' \<or> c = cu CHR ''E'' then
            (case r of
               g # r' \<Rightarrow>
                 if g = cu CHR ''+'' \<or> g = cu CHR ''-'' then
                   (case parse_digits r' of
                      None \<Rightarrow> None
                    | Some (ds, r'') \<Rightarrow> Some (c # g # ds, r''))
                 else
                   (case parse_digits r of
                      None \<Rightarrow> None
                    | Some (ds, r'') \<Rightarrow> Some (c # ds, r''))
             | [] \<Rightarrow> None)
          else Some ([], s)
      | [] \<Rightarrow> Some ([], s))"

definition parse_unsigned :: "jsstr \<Rightarrow> (jsstr \<times> jsstr) option" where
  "parse_unsigned s =
     (case parse_digits s of
        None \<Rightarrow> None
      | Some (ds, r) \<Rightarrow>
          if hd ds = 48 \<and> length ds > 1 then None
          else
            (case parse_fraction r of
               None \<Rightarrow> None
             | Some (fs, r') \<Rightarrow>
                 (case parse_exponent r' of
                    None \<Rightarrow> None
                  | Some (es, r'') \<Rightarrow> Some (ds @ fs @ es, r''))))"

definition parse_number :: "jsstr \<Rightarrow> (jsstr \<times> jsstr) option" where
  "parse_number s =
     (case s of
        c # r \<Rightarrow>
          if c = cu CHR ''-'' then
            (case parse_unsigned r of None \<Rightarrow> None | Some (t, r') \<Rightarrow> Some (c # t, r'))
          else parse_unsigned s
      | [] \<Rightarrow> None)"

definition take_prefix :: "jsstr \<Rightarrow> jsstr \<Rightarrow> jsstr option" where
  "take_prefix p s = (if take (length p) s = p then Some (drop (length p) s) else None)"

text \<open>
  The recursive-descent parser. Its recursion follows the nesting of the text, not the
  structure of a HOL value, so it runs on fuel; \<open>NoFuel\<close> is kept apart from
  \<open>SyntaxErr\<close>, and \<open>JSON_parse\<close> gives enough fuel for any text
  (\<open>parse_fuel\<close> below). The limit an engine puts on the depth of nesting is not
  modelled.
\<close>

datatype parsed = Parsed json jsstr | SyntaxErr | NoFuel

fun parse_value :: "nat \<Rightarrow> jsstr \<Rightarrow> parsed"
  and parse_elements :: "nat \<Rightarrow> json list \<Rightarrow> jsstr \<Rightarrow> parsed"
  and parse_members :: "nat \<Rightarrow> (jsstr \<times> json) list \<Rightarrow> jsstr \<Rightarrow> parsed"
where
  "parse_value 0 s = NoFuel"
| "parse_value (Suc n) s =
     (case skip_ws s of
        [] \<Rightarrow> SyntaxErr
      | c # cs \<Rightarrow>
          if c = cu CHR 0x22 then
            (case parse_chars cs of
               None \<Rightarrow> SyntaxErr
             | Some (t, r) \<Rightarrow> Parsed (JString t) r)
          else if c = cu CHR ''['' then
            (case skip_ws cs of
               [] \<Rightarrow> SyntaxErr
             | d # r \<Rightarrow> if d = cu CHR '']'' then Parsed (JArray []) r
                        else parse_elements n [] cs)
          else if c = cu CHR ''{'' then
            (case skip_ws cs of
               [] \<Rightarrow> SyntaxErr
             | d # r \<Rightarrow> if d = cu CHR ''}'' then Parsed (JObject []) r
                        else parse_members n [] cs)
          else if c = cu CHR ''n'' then
            (case take_prefix (js ''null'') (c # cs) of
               None \<Rightarrow> SyntaxErr
             | Some r \<Rightarrow> Parsed JNull r)
          else if c = cu CHR ''t'' then
            (case take_prefix (js ''true'') (c # cs) of
               None \<Rightarrow> SyntaxErr
             | Some r \<Rightarrow> Parsed (JBool True) r)
          else if c = cu CHR ''f'' then
            (case take_prefix (js ''false'') (c # cs) of
               None \<Rightarrow> SyntaxErr
             | Some r \<Rightarrow> Parsed (JBool False) r)
          else
            (case parse_number (c # cs) of
               None \<Rightarrow> SyntaxErr
             | Some (t, r) \<Rightarrow> Parsed (JNumber t) r))"
| "parse_elements 0 acc s = NoFuel"
| "parse_elements (Suc n) acc s =
     (case parse_value n s of
        NoFuel \<Rightarrow> NoFuel
      | SyntaxErr \<Rightarrow> SyntaxErr
      | Parsed v r \<Rightarrow>
          (case skip_ws r of
             [] \<Rightarrow> SyntaxErr
           | d # r' \<Rightarrow>
               if d = cu CHR '','' then parse_elements n (acc @ [v]) r'
               else if d = cu CHR '']'' then Parsed (JArray (acc @ [v])) r'
               else SyntaxErr))"
| "parse_members 0 acc s = NoFuel"
| "parse_members (Suc n) acc s =
     (case skip_ws s of
        [] \<Rightarrow> SyntaxErr
      | c # cs \<Rightarrow>
          if c = cu CHR 0x22 then
            (case parse_chars cs of
               None \<Rightarrow> SyntaxErr
             | Some (k, r) \<Rightarrow>
                 (case skip_ws r of
                    [] \<Rightarrow> SyntaxErr
                  | d # r1 \<Rightarrow>
                      if d = cu CHR '':'' then
                        (case parse_value n r1 of
                           NoFuel \<Rightarrow> NoFuel
                         | SyntaxErr \<Rightarrow> SyntaxErr
                         | Parsed v r2 \<Rightarrow>
                             (case skip_ws r2 of
                                [] \<Rightarrow> SyntaxErr
                              | e # r3 \<Rightarrow>
                                  if e = cu CHR '','' then parse_members n (obj_put acc k v) r3
                                  else if e = cu CHR ''}'' then Parsed (JObject (obj_put acc k v)) r3
                                  else SyntaxErr))
                      else SyntaxErr))
          else SyntaxErr)"

text \<open>\<^verbatim>\<open>JSON.parse(text)\<close>: one value between optional white space; \<open>Inl SyntaxError\<close> is the throw.\<close>

definition JSON_parse :: "jsstr \<Rightarrow> js_error + json" where
  "JSON_parse s =
     (case parse_value (Suc (2 * length s)) s of
        Parsed v r \<Rightarrow> if skip_ws r = [] then Inr v else Inl SyntaxError
      | SyntaxErr \<Rightarrow> Inl SyntaxError
      | NoFuel \<Rightarrow> Inl SyntaxError)"

section \<open>The host: numbers and the markdown renderer\<close>

text \<open>
  What the program takes from its environment and this theory does not compute:
  for the Number a literal denotes, its truthiness, whether it is finite and its
  \<^verbatim>\<open>ToString\<close>; and \<^verbatim>\<open>DOMPurify.sanitize(marked.parse(x))\<close>, with \<open>None\<close> when the
  call throws (a library that is not loaded, or one that rejects its argument).
  Every theorem below holds for every host.
\<close>

record host =
  number_truthy :: "jsstr \<Rightarrow> bool"
  number_finite :: "jsstr \<Rightarrow> bool"
  number_to_string :: "jsstr \<Rightarrow> jsstr"
  sanitized_markdown :: "jsval \<Rightarrow> jsstr option"

section \<open>Conversions and property reads\<close>

fun sequence :: "('e + 'a) list \<Rightarrow> 'e + 'a list" where
  "sequence [] = Inr []"
| "sequence (Inl e # rs) = Inl e"
| "sequence (Inr x # rs) = (case sequence rs of Inl e \<Rightarrow> Inl e | Inr xs \<Rightarrow> Inr (x # xs))"

text \<open>
  \<^verbatim>\<open>ToString\<close> of a value that came out of \<^verbatim>\<open>JSON.parse\<close> (also what \<^verbatim>\<open>+=\<close> on a string
  appends): an array joins its elements with commas, \<^verbatim>\<open>null\<close> elements as the empty
  string; an object prints as \<^verbatim>\<open>[object Object]\<close> unless an own property shadows
  \<^verbatim>\<open>toString\<close> with a value that cannot be called, which is a \<^verbatim>\<open>TypeError\<close>.
\<close>

fun to_string :: "host \<Rightarrow> json \<Rightarrow> js_error + jsstr" where
  "to_string h JNull = Inr (js ''null'')"
| "to_string h (JBool b) = Inr (if b then js ''true'' else js ''false'')"
| "to_string h (JNumber t) = Inr (number_to_string h t)"
| "to_string h (JString s) = Inr s"
| "to_string h (JArray xs) =
     (case sequence (map (\<lambda>x. if x = JNull then Inr [] else to_string h x) xs) of
        Inl e \<Rightarrow> Inl e
      | Inr ts \<Rightarrow> Inr (join (js '','') ts))"
| "to_string h (JObject kvs) =
     (if js ''toString'' \<in> fst ` set kvs then Inl TypeError else Inr (js ''[object Object]''))"

fun to_string_val :: "host \<Rightarrow> jsval \<Rightarrow> js_error + jsstr" where
  "to_string_val h Undefined = Inr (js ''undefined'')"
| "to_string_val h (J v) = to_string h v"

text \<open>\<^verbatim>\<open>ToBoolean\<close>, as the test of an \<^verbatim>\<open>if\<close>.\<close>

fun truthy :: "host \<Rightarrow> jsval \<Rightarrow> bool" where
  "truthy h Undefined = False"
| "truthy h (J JNull) = False"
| "truthy h (J (JBool b)) = b"
| "truthy h (J (JNumber t)) = number_truthy h t"
| "truthy h (J (JString s)) = (s \<noteq> [])"
| "truthy h (J (JArray xs)) = True"
| "truthy h (J (JObject kvs)) = True"

text \<open>
  Reading a property by one of the names the program uses (\<^verbatim>\<open>response\<close>, \<^verbatim>\<open>role\<close>,
  \<^verbatim>\<open>content\<close>), which no built-in prototype defines: an own property of an object, else
  \<^verbatim>\<open>undefined\<close>; on \<^verbatim>\<open>null\<close> a \<^verbatim>\<open>TypeError\<close>.
\<close>

fun get_prop :: "json \<Rightarrow> jsstr \<Rightarrow> js_error + jsval" where
  "get_prop JNull k = Inl TypeError"
| "get_prop (JObject kvs) k = Inr (case map_of kvs k of None \<Rightarrow> Undefined | Some v \<Rightarrow> J v)"
| "get_prop v k = Inr Undefined"

text \<open>\<^verbatim>\<open>chatHistory.push(x)\<close>: only an array has \<^verbatim>\<open>push\<close>.\<close>

fun array_push :: "json \<Rightarrow> json \<Rightarrow> js_error + json" where
  "array_push (JArray xs) x = Inr (JArray (xs @ [x]))"
| "array_push v x = Inl TypeError"

section \<open>\<^verbatim>\<open>JSON.stringify\<close>\<close>

definition hex_digit :: "nat \<Rightarrow> nat" where
  "hex_digit d = (if d < 10 then 48 + d else 87 + d)"

definition unicode_escape :: "nat \<Rightarrow> jsstr" where
  "unicode_escape c =
     [0x5C, cu CHR ''u'', hex_digit (c div 4096 mod 16), hex_digit (c div 256 mod 16),
      hex_digit (c div 16 mod 16), hex_digit (c mod 16)]"

definition is_high_surrogate :: "nat \<Rightarrow> bool" where
  "is_high_surrogate c \<longleftrightarrow> 0xD800 \<le> c \<and> c \<le> 0xDBFF"

definition is_low_surrogate :: "nat \<Rightarrow> bool" where
  "is_low_surrogate c \<longleftrightarrow> 0xDC00 \<le> c \<and> c \<le> 0xDFFF"

definition escape_unit :: "nat \<Rightarrow> jsstr" where
  "escape_unit c =
     (if c = 0x08 then [0x5C, cu CHR ''b'']
      else if c = 0x09 then [0x5C, cu CHR ''t'']
      else if c = 0x0A then [0x5C, cu CHR ''n'']
      else if c = 0x0C then [0x5C, cu CHR ''f'']
      else if c = 0x0D then [0x5C, cu CHR ''r'']
      else if c = 0x22 then [0x5C, 0x22]
      else if c = 0x5C then [0x5C, 0x5C]
      else if c < 0x20 then unicode_escape c
      else [c])"

text \<open>
  \<^verbatim>\<open>QuoteJSONString\<close> without the enclosing quotes: a surrogate pair is copied, a lone
  surrogate is written as a \<^verbatim>\<open>\u\<close> escape.
\<close>

fun quote_chars :: "jsstr \<Rightarrow> jsstr" where
  "quote_chars [] = []"
| "quote_chars (c # cs) =
     (if is_high_surrogate c then
        (case cs of
           [] \<Rightarrow> unicode_escape c
         | d # ds \<Rightarrow>
             if is_low_surrogate d then c # d # quote_chars ds
             else unicode_escape c @ quote_chars cs)
      else if is_low_surrogate c then unicode_escape c @ quote_chars cs
      else escape_unit c @ quote_chars cs)"

definition quote :: "jsstr \<Rightarrow> jsstr" where
  "quote s = [0x22] @ quote_chars s @ [0x22]"

fun JSON_stringify :: "host \<Rightarrow> json \<Rightarrow> jsstr" where
  "JSON_stringify h JNull = js ''null''"
| "JSON_stringify h (JBool b) = (if b then js ''true'' else js ''false'')"
| "JSON_stringify h (JNumber t) =
     (if number_finite h t then number_to_string h t else js ''null'')"
| "JSON_stringify h (JString s) = quote s"
| "JSON_stringify h (JArray xs) =
     js ''['' @ join (js '','') (map (JSON_stringify h) xs) @ js '']''"
| "JSON_stringify h (JObject kvs) =
     js ''{'' @ join (js '','') (map (\<lambda>(k, v). quote k @ js '':'' @ JSON_stringify h v) kvs) @ js ''}''"

section \<open>Durable storage\<close>

text \<open>
  \<^verbatim>\<open>localStorage\<close>: a key-value store that may refuse every access (\<open>accessible\<close>) and
  refuses a write whose value is longer than what it can still hold (\<open>capacity\<close>).
\<close>

record storage =
  items :: "jsstr \<rightharpoonup> jsstr"
  accessible :: bool
  capacity :: nat

definition getItem :: "storage \<Rightarrow> jsstr \<Rightarrow> js_error + jsstr option" where
  "getItem st k = (if accessible st then Inr (items st k) else Inl StorageError)"

definition setItem :: "storage \<Rightarrow> jsstr \<Rightarrow> jsstr \<Rightarrow> js_error + storage" where
  "setItem st k v =
     (if accessible st \<and> length v \<le> capacity st
      then Inr (st\<lparr>items := (items st)(k \<mapsto> v)\<rparr>)
      else Inl StorageError)"

definition STORAGE_KEY :: jsstr where
  "STORAGE_KEY = js ''cf_ai_haiku_chat_history''"

section \<open>The chat history\<close>

definition message :: "jsstr \<Rightarrow> jsstr \<Rightarrow> json" where
  "message role content = JObject [(js ''role'', JString role), (js ''content'', JString content)]"

definition welcome_text :: jsstr where
  "welcome_text =
     js ''### Hello there! I'm an LLM Haiku poet, here to give you a hand with your writing.''
     @ [0x0A] @
     js ''If you write a haiku, I'll help you refine it or suggest improvements. Let's create some beautiful poetry together!''"

definition default_history :: json where
  "default_history = JArray [message (js ''assistant'') welcome_text]"

text \<open>
  The initialiser of \<^verbatim>\<open>chatHistory\<close> (lines 19 to 36), in two parts: the \<^verbatim>\<open>try\<close> block, whose
  result is the value it returns (\<open>Some\<close>), falling out of it (\<open>None\<close>) or a throw; and the
  whole function, where a throw is caught and logged and anything but a return inside
  the block ends in the default.
\<close>

definition load_try :: "storage \<Rightarrow> js_error + json option" where
  "load_try st =
     (case getItem st STORAGE_KEY of
        Inl e \<Rightarrow> Inl e
      | Inr None \<Rightarrow> Inr None
      | Inr (Some raw) \<Rightarrow>
          if raw \<noteq> [] then
            (case JSON_parse raw of Inl e \<Rightarrow> Inl e | Inr v \<Rightarrow> Inr (Some v))
          else Inr None)"

definition load :: "storage \<Rightarrow> js_error + json" where
  "load st =
     (case load_try st of
        Inr (Some v) \<Rightarrow> Inr v
      | Inr None \<Rightarrow> Inr default_history
      | Inl e \<Rightarrow> Inr default_history)"

section \<open>The page\<close>

datatype rendering = InnerHTML jsstr | TextContent jsstr

record node =
  className :: jsstr
  shown :: rendering

text \<open>
  The session: the globals of the script, the controls it touches, the children of
  \<^verbatim>\<open>#chat-messages\<close>, and two logs that the script does not hold but its effects are
  read from: the bodies of the \<^verbatim>\<open>fetch\<close> calls issued, and the texts the pending reply
  was re-rendered from.
\<close>

record session =
  chatHistory :: json
  isProcessing :: bool
  userInput_value :: jsstr
  userInput_disabled :: bool
  sendButton_disabled :: bool
  typingIndicator_visible :: bool
  chatMessages :: "node list"
  localStorage :: storage
  requests :: "jsstr list"
  pending_renders :: "jsstr list"

text \<open>Assigning a value to \<^verbatim>\<open>textContent\<close>: \<^verbatim>\<open>null\<close> and \<^verbatim>\<open>undefined\<close> give the empty text.\<close>

fun text_content :: "host \<Rightarrow> jsval \<Rightarrow> js_error + jsstr" where
  "text_content h Undefined = Inr []"
| "text_content h (J JNull) = Inr []"
| "text_content h (J v) = to_string h v"

text \<open>
  \<^verbatim>\<open>addMessageToChat\<close> (lines 211 to 227). A throw (from the template literal or from the
  fallback assignment) happens before the new element is attached, so it leaves the
  session as it was.
\<close>

definition addMessageToChat :: "host \<Rightarrow> jsval \<Rightarrow> jsval \<Rightarrow> session \<Rightarrow> js_error + session" where
  "addMessageToChat h role content s =
     (case to_string_val h role of
        Inl e \<Rightarrow> Inl e
      | Inr r \<Rightarrow>
          (case (case sanitized_markdown h content of
                   Some html \<Rightarrow> Inr (InnerHTML html)
                 | None \<Rightarrow>
                     (case text_content h content of
                        Inl e \<Rightarrow> Inl e
                      | Inr t \<Rightarrow> Inr (TextContent t))) of
             Inl e \<Rightarrow> Inl e
           | Inr p \<Rightarrow>
               Inr (s\<lparr>chatMessages := chatMessages s @
                      [\<lparr>className = js ''message '' @ r @ js ''-message'', shown = p\<rparr>]\<rparr>)))"

text \<open>\<^verbatim>\<open>saveChatHistory\<close> (lines 232 to 238): a failed write is logged and nothing else.\<close>

definition saveChatHistory :: "host \<Rightarrow> session \<Rightarrow> session" where
  "saveChatHistory h s =
     (case setItem (localStorage s) STORAGE_KEY (JSON_stringify h (chatHistory s)) of
        Inl e \<Rightarrow> s
      | Inr st \<Rightarrow> s\<lparr>localStorage := st\<rparr>)"

text \<open>
  What \<^verbatim>\<open>for (const msg of chatHistory)\<close> iterates: the elements of an array, the code
  points of a string; anything else is not iterable.
\<close>

fun code_points :: "jsstr \<Rightarrow> jsstr list" where
  "code_points [] = []"
| "code_points (c # cs) =
     (if is_high_surrogate c then
        (case cs of
           [] \<Rightarrow> [[c]]
         | d # ds \<Rightarrow>
             if is_low_surrogate d then [c, d] # code_points ds
             else [c] # code_points cs)
      else [c] # code_points cs)"

fun iterate :: "json \<Rightarrow> js_error + json list" where
  "iterate (JArray xs) = Inr xs"
| "iterate (JString t) = Inr (map JString (code_points t))"
| "iterate v = Inl TypeError"

text \<open>
  \<^verbatim>\<open>renderChatFromHistory\<close> (lines 243 to 249): the session it leaves, and the error if it
  throws on the way.
\<close>

fun render_messages :: "host \<Rightarrow> json list \<Rightarrow> session \<Rightarrow> session \<times> js_error option" where
  "render_messages h [] s = (s, None)"
| "render_messages h (msg # msgs) s =
     (case get_prop msg (js ''role'') of
        Inl e \<Rightarrow> (s, Some e)
      | Inr r \<Rightarrow>
          (case get_prop msg (js ''content'') of
             Inl e \<Rightarrow> (s, Some e)
           | Inr c \<Rightarrow>
               (case addMessageToChat h r c s of
                  Inl e \<Rightarrow> (s, Some e)
                | Inr s' \<Rightarrow> render_messages h msgs s')))"

definition renderChatFromHistory :: "host \<Rightarrow> session \<Rightarrow> session \<times> js_error option" where
  "renderChatFromHistory h s =
     (let s0 = s\<lparr>chatMessages := []\<rparr> in
      case iterate (chatHistory s0) of
        Inl e \<Rightarrow> (s0, Some e)
      | Inr msgs \<Rightarrow> render_messages h msgs s0)"

section \<open>\<^verbatim>\<open>sendMessage\<close>\<close>

text \<open>
  What the network does with the one request of an exchange: \<^verbatim>\<open>fetch\<close> rejects, or it
  resolves with a response whose \<^verbatim>\<open>ok\<close> flag and body are given. A body is the list of
  the reads that settle before the stream closes, each with the text the decoder returns
  for it, or failing; a response may have no body (\<^verbatim>\<open>response.body\<close> is \<^verbatim>\<open>null\<close>).
  A body that never closes is outside this model: the exchange then never settles.
\<close>

datatype read_event = Chunk jsstr | ReadFails

datatype fetch_outcome = FetchFails | Response bool "read_event list option"

datatype started = Rejected | Thrown js_error | Started nat

definition errMsg :: jsstr where
  "errMsg = js ''Sorry, there was an error processing your request.''"

definition pending_node :: node where
  "pending_node = \<lparr>className = js ''message assistant-message'', shown = InnerHTML []\<rparr>"

text \<open>
  Lines 94 to 137: from the guard to the call of \<^verbatim>\<open>fetch\<close>. \<open>Rejected\<close> is the early
  return, \<open>Thrown\<close> a throw before the \<^verbatim>\<open>try\<close> block is entered (nothing catches it and
  the \<^verbatim>\<open>finally\<close> block does not run), \<open>Started el\<close> the request being issued, with
  \<open>el\<close> the position of the pending reply among the children of \<^verbatim>\<open>#chat-messages\<close>.
\<close>

definition sendMessage_begin :: "host \<Rightarrow> session \<Rightarrow> session \<times> started" where
  "sendMessage_begin h s =
     (let msg = trim (userInput_value s) in
      if msg = [] \<or> isProcessing s then (s, Rejected)
      else
        let s1 = s\<lparr>isProcessing := True, userInput_disabled := True, sendButton_disabled := True\<rparr> in
        case addMessageToChat h (J (JString (js ''user''))) (J (JString msg)) s1 of
          Inl e \<Rightarrow> (s1, Thrown e)
        | Inr s2 \<Rightarrow>
            let s3 = s2\<lparr>userInput_value := [], typingIndicator_visible := True\<rparr> in
            case array_push (chatHistory s3) (message (js ''user'') msg) of
              Inl e \<Rightarrow> (s3, Thrown e)
            | Inr hist \<Rightarrow>
                let s4 = saveChatHistory h (s3\<lparr>chatHistory := hist\<rparr>);
                    el = length (chatMessages s4);
                    s5 = s4\<lparr>chatMessages := chatMessages s4 @ [pending_node]\<rparr>;
                    body = JSON_stringify h (JObject [(js ''messages'', chatHistory s5)])
                in (s5\<lparr>requests := requests s5 @ [body]\<rparr>, Started el))"

text \<open>Lines 129 to 145: what awaiting the response gives the \<^verbatim>\<open>try\<close> block.\<close>

fun await_response :: "fetch_outcome \<Rightarrow> js_error + read_event list" where
  "await_response FetchFails = Inl NetworkError"
| "await_response (Response ok body) =
     (if \<not> ok then Inl (Error (js ''Failed to get response''))
      else case body of None \<Rightarrow> Inl TypeError | Some evs \<Rightarrow> Inr evs)"

text \<open>Lines 168 to 176: the pending reply re-rendered from the text so far.\<close>

fun update_at :: "nat \<Rightarrow> ('a \<Rightarrow> 'a) \<Rightarrow> 'a list \<Rightarrow> 'a list" where
  "update_at i f [] = []"
| "update_at 0 f (x # xs) = f x # xs"
| "update_at (Suc i) f (x # xs) = x # update_at i f xs"

definition render_pending :: "host \<Rightarrow> nat \<Rightarrow> jsstr \<Rightarrow> session \<Rightarrow> session" where
  "render_pending h el text s =
     s\<lparr>chatMessages :=
          update_at el
            (\<lambda>n. n\<lparr>shown := (case sanitized_markdown h (J (JString text)) of
                                Some html \<Rightarrow> InnerHTML html
                              | None \<Rightarrow> TextContent text)\<rparr>)
            (chatMessages s),
        pending_renders := pending_renders s @ [text]\<rparr>"

text \<open>
  Lines 162 to 183, one line of a chunk: the session and \<^verbatim>\<open>responseText\<close> before and
  after. Every throw inside (the parse, reading \<^verbatim>\<open>response\<close> off \<^verbatim>\<open>null\<close>, a value that
  cannot be turned into text) is caught by the \<^verbatim>\<open>catch\<close> of line 181 and logged.
\<close>

definition process_line :: "host \<Rightarrow> nat \<Rightarrow> jsstr \<Rightarrow> session \<times> jsstr \<Rightarrow> session \<times> jsstr" where
  "process_line h el line st =
     (case st of (s, responseText) \<Rightarrow>
        (case JSON_parse line of
           Inl e \<Rightarrow> (s, responseText)
         | Inr jsonData \<Rightarrow>
             (case get_prop jsonData (js ''response'') of
                Inl e \<Rightarrow> (s, responseText)
              | Inr r \<Rightarrow>
                  if truthy h r then
                    (case to_string_val h r of
                       Inl e \<Rightarrow> (s, responseText)
                     | Inr t \<Rightarrow>
                         let responseText' = responseText @ t
                         in (render_pending h el responseText' s, responseText'))
                  else (s, responseText))))"

text \<open>Lines 157 to 184: one chunk, split at line feeds, line by line.\<close>

definition process_chunk :: "host \<Rightarrow> nat \<Rightarrow> jsstr \<Rightarrow> session \<times> jsstr \<Rightarrow> session \<times> jsstr" where
  "process_chunk h el chunk st = foldl (\<lambda>acc line. process_line h el line acc) st (split_lines chunk)"

text \<open>Lines 149 to 185: the read loop, until the stream closes or a read fails.\<close>

fun read_loop :: "host \<Rightarrow> nat \<Rightarrow> read_event list \<Rightarrow> session \<times> jsstr \<Rightarrow> session \<times> (js_error + jsstr)" where
  "read_loop h el [] (s, responseText) = (s, Inr responseText)"
| "read_loop h el (ReadFails # evs) (s, responseText) = (s, Inl NetworkError)"
| "read_loop h el (Chunk c # evs) (s, responseText) =
     read_loop h el evs (process_chunk h el c (s, responseText))"

text \<open>Lines 187 to 189 and 193 to 195: a finished assistant message goes to the history and to storage.\<close>

definition push_assistant :: "host \<Rightarrow> jsstr \<Rightarrow> session \<Rightarrow> session \<times> js_error option" where
  "push_assistant h content s =
     (case array_push (chatHistory s) (message (js ''assistant'') content) of
        Inl e \<Rightarrow> (s, Some e)
      | Inr hist \<Rightarrow> (saveChatHistory h (s\<lparr>chatHistory := hist\<rparr>), None))"

text \<open>Lines 139 to 189: the \<^verbatim>\<open>try\<close> block from the response on.\<close>

definition try_block :: "host \<Rightarrow> nat \<Rightarrow> fetch_outcome \<Rightarrow> session \<Rightarrow> session \<times> js_error option" where
  "try_block h el net s =
     (case await_response net of
        Inl e \<Rightarrow> (s, Some e)
      | Inr evs \<Rightarrow>
          (case read_loop h el evs (s, []) of
             (s1, Inl e) \<Rightarrow> (s1, Some e)
           | (s1, Inr responseText) \<Rightarrow> push_assistant h responseText s1))"

text \<open>Lines 190 to 195.\<close>

definition catch_block :: "host \<Rightarrow> session \<Rightarrow> session \<times> js_error option" where
  "catch_block h s =
     (case addMessageToChat h (J (JString (js ''assistant''))) (J (JString errMsg)) s of
        Inl e \<Rightarrow> (s, Some e)
      | Inr s1 \<Rightarrow> push_assistant h errMsg s1)"

text \<open>Lines 196 to 205.\<close>

definition finally_block :: "session \<Rightarrow> session" where
  "finally_block s =
     s\<lparr>typingIndicator_visible := False, isProcessing := False,
       userInput_disabled := False, sendButton_disabled := False\<rparr>"

text \<open>
  The exchange after the request is issued: \<^verbatim>\<open>try\<close>, \<^verbatim>\<open>catch\<close> if it threw, \<^verbatim>\<open>finally\<close> always.
  The error returned is the one that escapes \<^verbatim>\<open>sendMessage\<close>, if any.
\<close>

definition settle :: "host \<Rightarrow> nat \<Rightarrow> fetch_outcome \<Rightarrow> session \<Rightarrow> session \<times> js_error option" where
  "settle h el net s =
     (case try_block h el net s of
        (s1, None) \<Rightarrow> (finally_block s1, None)
      | (s1, Some e) \<Rightarrow>
          (case catch_block h s1 of (s2, r) \<Rightarrow> (finally_block s2, r)))"

text \<open>
  \<^verbatim>\<open>sendMessage\<close> from the call to the point where its promise settles, given what the
  network does with its request.
\<close>

definition sendMessage :: "host \<Rightarrow> fetch_outcome \<Rightarrow> session \<Rightarrow> session \<times> js_error option" where
  "sendMessage h net s =
     (case sendMessage_begin h s of
        (s1, Rejected) \<Rightarrow> (s1, None)
      | (s1, Thrown e) \<Rightarrow> (s1, Some e)
      | (s1, Started el) \<Rightarrow> settle h el net s1)"

section \<open>Exchanges and events interleaved\<close>

text \<open>
  \<^verbatim>\<open>sendMessage\<close> is asynchronous: it runs until it awaits the response, later from the
  response to its first read, then from read to read, and other handlers run in between.
  An exchange in flight is what it waits for, with its local variables (the position of
  the pending reply, \<^verbatim>\<open>responseText\<close>, the reads still to come). An event is one handler
  run to its next \<^verbatim>\<open>await\<close>: a submission, the user typing, the response arriving for
  the \<open>i\<close>-th exchange in flight, a read settling for it.
\<close>

datatype pending = AwaitingResponse nat | AwaitingRead nat jsstr "read_event list"

datatype event = Submit | Typed jsstr | Responds nat fetch_outcome | Reads nat

text \<open>The \<^verbatim>\<open>catch\<close> block and then the \<^verbatim>\<open>finally\<close> block.\<close>

definition fail_exchange :: "host \<Rightarrow> session \<Rightarrow> session" where
  "fail_exchange h s = finally_block (fst (catch_block h s))"

fun step :: "host \<Rightarrow> event \<Rightarrow> session \<times> pending list \<Rightarrow> session \<times> pending list" where
  "step h Submit (s, fl) =
     (case sendMessage_begin h s of
        (s', Started el) \<Rightarrow> (s', fl @ [AwaitingResponse el])
      | (s', Rejected) \<Rightarrow> (s', fl)
      | (s', Thrown e) \<Rightarrow> (s', fl))"
| "step h (Typed t) (s, fl) = (s\<lparr>userInput_value := t\<rparr>, fl)"
| "step h (Responds i net) (s, fl) =
     (case drop i fl of
        AwaitingResponse el # rest \<Rightarrow>
          (case await_response net of
             Inl e \<Rightarrow> (fail_exchange h s, take i fl @ rest)
           | Inr evs \<Rightarrow> (s, take i fl @ AwaitingRead el [] evs # rest))
      | _ \<Rightarrow> (s, fl))"
| "step h (Reads i) (s, fl) =
     (case drop i fl of
        AwaitingRead el t evs # rest \<Rightarrow>
          (case evs of
             [] \<Rightarrow>
               (case push_assistant h t s of
                  (s', None) \<Rightarrow> (finally_block s', take i fl @ rest)
                | (s', Some e) \<Rightarrow> (fail_exchange h s', take i fl @ rest))
           | ReadFails # evs' \<Rightarrow> (fail_exchange h s, take i fl @ rest)
           | Chunk c # evs' \<Rightarrow>
               (case process_chunk h el c (s, t) of
                  (s', t') \<Rightarrow> (s', take i fl @ AwaitingRead el t' evs' # rest)))
      | _ \<Rightarrow> (s, fl))"

definition run :: "host \<Rightarrow> event list \<Rightarrow> session \<times> pending list \<Rightarrow> session \<times> pending list" where
  "run h evs w = foldl (\<lambda>w e. step h e w) w evs"

text \<open>At most one exchange in flight, and none unless \<^verbatim>\<open>isProcessing\<close> is set.\<close>

definition one_in_flight :: "session \<times> pending list \<Rightarrow> bool" where
  "one_in_flight w \<longleftrightarrow> length (snd w) \<le> 1 \<and> (if snd w = [] then True else isProcessing (fst w))"


text \<open>The reads after which an exchange with this outcome has settled.\<close>

fun reads_needed :: "fetch_outcome \<Rightarrow> nat" where
  "reads_needed (Response ok (Some evs)) = Suc (length evs)"
| "reads_needed net = 0"


section \<open>Reference values for the statements\<close>

text \<open>How a message with text role and content looks once \<^verbatim>\<open>addMessageToChat\<close> has drawn it.\<close>

definition message_node :: "host \<Rightarrow> jsstr \<Rightarrow> jsstr \<Rightarrow> node" where
  "message_node h role content =
     \<lparr>className = js ''message '' @ role @ js ''-message'',
      shown = (case sanitized_markdown h (J (JString content)) of
                 Some html \<Rightarrow> InnerHTML html
               | None \<Rightarrow> TextContent content)\<rparr>"

text \<open>A host without a markdown library, and a fresh page with \<^verbatim>\<open>hi\<close> typed in.\<close>

definition plain_host :: host where
  "plain_host =
     \<lparr>number_truthy = (\<lambda>t. True), number_finite = (\<lambda>t. True),
      number_to_string = (\<lambda>t. t), sanitized_markdown = (\<lambda>v. None)\<rparr>"

definition empty_storage :: storage where
  "empty_storage = \<lparr>items = Map.empty, accessible = True, capacity = 100000\<rparr>"

definition fresh_session :: session where
  "fresh_session =
     \<lparr>chatHistory = default_history, isProcessing = False, userInput_value = js '' hi '',
      userInput_disabled = False, sendButton_disabled = False,
      typingIndicator_visible = False, chatMessages = [], localStorage = empty_storage,
      requests = [], pending_renders = []\<rparr>"

text \<open>
  The text one line of a chunk adds to \<^verbatim>\<open>responseText\<close>, if any (lines 163 to 166), and
  the successive values of \<^verbatim>\<open>responseText\<close> as fragments are appended to it.
\<close>

definition fragment :: "host \<Rightarrow> jsstr \<Rightarrow> jsstr option" where
  "fragment h line =
     (case JSON_parse line of
        Inl e \<Rightarrow> None
      | Inr jsonData \<Rightarrow>
          (case get_prop jsonData (js ''response'') of
             Inl e \<Rightarrow> None
           | Inr r \<Rightarrow>
               if truthy h r then
                 (case to_string_val h r of Inl e \<Rightarrow> None | Inr t \<Rightarrow> Some t)
               else None))"

fun cumulative :: "jsstr \<Rightarrow> jsstr list \<Rightarrow> jsstr list" where
  "cumulative t [] = []"
| "cumulative t (f # fs) = (t @ f) # cumulative (t @ f) fs"

text \<open>
  The failures of an exchange: \<^verbatim>\<open>fetch\<close> rejects (a network error), the response is not
  \<^verbatim>\<open>ok\<close>, or reading the body fails (no body to read, or a read that rejects).
\<close>

fun request_fails :: "fetch_outcome \<Rightarrow> bool" where
  "request_fails FetchFails = True"
| "request_fails (Response ok None) = True"
| "request_fails (Response ok (Some evs)) = (if ok then ReadFails \<in> set evs else True)"

text \<open>What the read loop leaves alone.\<close>

definition frame :: "session \<Rightarrow> session \<Rightarrow> bool" where
  "frame s s' \<longleftrightarrow>
     chatHistory s' = chatHistory s \<and> isProcessing s' = isProcessing s \<and>
     requests s' = requests s \<and> localStorage s' = localStorage s"


text \<open>
  The values that \<^verbatim>\<open>JSON.parse\<close> gives back from the text \<^verbatim>\<open>JSON.stringify\<close> writes for
  them, whatever the host: no number in them (how a number prints is the host's), and
  every object with its properties in the order in which building it anew puts them.
  \<open>need\<close> is fuel that suffices to parse that text.
\<close>

fun stable :: "json \<Rightarrow> bool" where
  "stable JNull = True"
| "stable (JBool b) = True"
| "stable (JNumber t) = False"
| "stable (JString s) = True"
| "stable (JArray xs) = list_all stable xs"
| "stable (JObject kvs) =
     (foldl (\<lambda>acc (k, v). obj_put acc k v) [] kvs = kvs \<and> list_all stable (map snd kvs))"

fun need :: "json \<Rightarrow> nat" where
  "need (JArray xs) = Suc (sum_list (map (\<lambda>x. Suc (need x)) xs))"
| "need (JObject kvs) = Suc (sum_list (map (\<lambda>x. Suc (need x)) (map snd kvs)))"
| "need v = 1"



section \<open>Facts about the pieces\<close>

lemma quote_chars_pair:
  "is_high_surrogate c \<Longrightarrow> is_low_surrogate d \<Longrightarrow>
   quote_chars (c # d # ds) = c # d # quote_chars ds"
  by simp

lemma quote_chars_lone_high:
  "is_high_surrogate c \<Longrightarrow> \<not> is_low_surrogate d \<Longrightarrow>
   quote_chars (c # d # ds) = unicode_escape c @ quote_chars (d # ds)"
  by simp

lemma JSON_parse_empty: "JSON_parse [] = Inl SyntaxError"
  by (simp add: JSON_parse_def skip_ws_def)

lemma process_line_empty: "process_line h el [] st = st"
  by (cases st) (simp add: process_line_def JSON_parse_empty)

lemma foldl_process_line_nonempty:
  "foldl (\<lambda>acc line. process_line h el line acc) st ls =
   foldl (\<lambda>acc line. process_line h el line acc) st (filter (\<lambda>l. l \<noteq> []) ls)"
  by (induction ls arbitrary: st) (simp_all add: process_line_empty)

text \<open>A body that only delivers chunks and closes: the loop is a fold over all their lines.\<close>

lemma read_loop_chunks:
  "read_loop h el (map Chunk cs) st =
     (case foldl (\<lambda>acc line. process_line h el line acc) st (concat (map split_lines cs)) of
        (s', t) \<Rightarrow> (s', Inr t))"
proof (induction cs arbitrary: st)
  case Nil
  show ?case by (cases st) simp
next
  case (Cons c cs)
  show ?case
    by (cases st) (simp add: Cons.IH process_chunk_def)
qed

lemma addMessageToChat_text:
  "addMessageToChat h (J (JString role)) (J (JString content)) s =
     Inr (s\<lparr>chatMessages := chatMessages s @ [message_node h role content]\<rparr>)"
  by (simp add: addMessageToChat_def message_node_def split: option.splits)

lemma update_at_append:
  "update_at (length pre) f (pre @ x # post) = pre @ f x # post"
  by (induction pre) simp_all

lemma sendMessage_begin_accepted:
  assumes "trim (userInput_value s) \<noteq> []" and "\<not> isProcessing s" and "chatHistory s = JArray xs"
  shows "\<exists>s1. sendMessage_begin h s = (s1, Started (Suc (length (chatMessages s)))) \<and>
           chatHistory s1 = JArray (xs @ [message (js ''user'') (trim (userInput_value s))]) \<and>
           isProcessing s1 \<and>
           requests s1 = requests s @
             [JSON_stringify h (JObject [(js ''messages'', chatHistory s1)])] \<and>
           pending_renders s1 = pending_renders s \<and>
           chatMessages s1 = chatMessages s @
             [message_node h (js ''user'') (trim (userInput_value s)), pending_node]"
  using assms
  by (simp add: sendMessage_begin_def addMessageToChat_text Let_def saveChatHistory_def
      split: sum.splits)

lemma render_pending_simps:
  "chatHistory (render_pending h el t s) = chatHistory s"
  "isProcessing (render_pending h el t s) = isProcessing s"
  "requests (render_pending h el t s) = requests s"
  "localStorage (render_pending h el t s) = localStorage s"
  "pending_renders (render_pending h el t s) = pending_renders s @ [t]"
  by (simp_all add: render_pending_def)

lemma render_pending_last:
  "chatMessages s = pre @ [n] \<Longrightarrow>
   chatMessages (render_pending h (length pre) t s) =
     pre @ [n\<lparr>shown := (case sanitized_markdown h (J (JString t)) of
                          Some html \<Rightarrow> InnerHTML html | None \<Rightarrow> TextContent t)\<rparr>]"
  by (simp add: render_pending_def update_at_append)

lemma finally_block_simps:
  "chatHistory (finally_block s) = chatHistory s"
  "isProcessing (finally_block s) = False"
  "requests (finally_block s) = requests s"
  "localStorage (finally_block s) = localStorage s"
  "pending_renders (finally_block s) = pending_renders s"
  "chatMessages (finally_block s) = chatMessages s"
  by (simp_all add: finally_block_def)

lemma push_assistant_array:
  "chatHistory s = JArray ys \<Longrightarrow>
   push_assistant h t s =
     (saveChatHistory h (s\<lparr>chatHistory := JArray (ys @ [message (js ''assistant'') t])\<rparr>), None)"
  by (simp add: push_assistant_def)

lemma saveChatHistory_simps:
  "chatHistory (saveChatHistory h s) = chatHistory s"
  "isProcessing (saveChatHistory h s) = isProcessing s"
  "requests (saveChatHistory h s) = requests s"
  "pending_renders (saveChatHistory h s) = pending_renders s"
  "chatMessages (saveChatHistory h s) = chatMessages s"
  by (simp_all add: saveChatHistory_def split: sum.splits)

lemma fresh_session_accepted:
  "trim (userInput_value fresh_session) = js ''hi''"
  "\<not> isProcessing fresh_session"
  "chatHistory fresh_session = JArray [message (js ''assistant'') welcome_text]"
  by (simp_all add: fresh_session_def trim_def js_def is_js_space_def default_history_def)

lemma parse_Hel:
  \<open>JSON_parse (js ''{"response":"Hel"}'') = Inr (JObject [(js ''response'', JString (js ''Hel''))])\<close>
  by code_simp

lemma process_line_Hel:
  \<open>process_line h el (js ''{"response":"Hel"}'') (s, t) =
     (render_pending h el (t @ js ''Hel'') s, t @ js ''Hel'')\<close>
  by (simp add: process_line_def parse_Hel Let_def) (simp add: js_def)

lemma parse_lo:
  \<open>JSON_parse (js ''{"response":"lo"}'') = Inr (JObject [(js ''response'', JString (js ''lo''))])\<close>
  by code_simp

lemma process_line_lo:
  \<open>process_line h el (js ''{"response":"lo"}'') (s, t) =
     (render_pending h el (t @ js ''lo'') s, t @ js ''lo'')\<close>
  by (simp add: process_line_def parse_lo Let_def) (simp add: js_def)

section \<open>The streamed reply\<close>

text \<open>
  C1. Take any accepted submission (non-empty trimmed input, no exchange in flight, an
  array as history) and any body that delivers chunks and closes, such that the non-empty
  lines of its chunks are exactly \<^verbatim>\<open>{"response":"Hel"}\<close> and \<^verbatim>\<open>{"response":"lo"}\<close>. Then
  nothing escapes \<^verbatim>\<open>sendMessage\<close>, the history ends with the user's message followed by an
  assistant message whose content is \<^verbatim>\<open>Hello\<close>, the pending reply was re-rendered exactly
  twice, from \<^verbatim>\<open>Hel\<close> and then from \<^verbatim>\<open>Hello\<close>, and the page ends with the user's message
  and the reply drawn from \<^verbatim>\<open>Hello\<close>.
\<close>

theorem stream_Hel_lo:
  assumes "trim (userInput_value s) \<noteq> []" and "\<not> isProcessing s" and "chatHistory s = JArray xs"
    and lines: \<open>filter (\<lambda>l. l \<noteq> []) (concat (map split_lines cs)) =
      [js ''{"response":"Hel"}'', js ''{"response":"lo"}'']\<close>
  shows "snd (sendMessage h (Response True (Some (map Chunk cs))) s) = None \<and>
         chatHistory (fst (sendMessage h (Response True (Some (map Chunk cs))) s)) =
           JArray (xs @ [message (js ''user'') (trim (userInput_value s)),
                         message (js ''assistant'') (js ''Hello'')]) \<and>
         pending_renders (fst (sendMessage h (Response True (Some (map Chunk cs))) s)) =
           pending_renders s @ [js ''Hel'', js ''Hello''] \<and>
         chatMessages (fst (sendMessage h (Response True (Some (map Chunk cs))) s)) =
           chatMessages s @ [message_node h (js ''user'') (trim (userInput_value s)),
                             message_node h (js ''assistant'') (js ''Hello'')]"
proof -
  from sendMessage_begin_accepted [OF assms(1-3), of h]
  obtain s1 where s1: "sendMessage_begin h s = (s1, Started (Suc (length (chatMessages s))))"
    and hist: "chatHistory s1 = JArray (xs @ [message (js ''user'') (trim (userInput_value s))])"
    and rend: "pending_renders s1 = pending_renders s"
    and msgs: "chatMessages s1 =
      (chatMessages s @ [message_node h (js ''user'') (trim (userInput_value s))]) @ [pending_node]"
    by auto
  let ?el = "Suc (length (chatMessages s))"
  let ?pre = "chatMessages s @ [message_node h (js ''user'') (trim (userInput_value s))]"
  have el: "?el = length ?pre" by simp
  let ?s2 = "render_pending h ?el (js ''Hel'') s1"
  let ?s3 = "render_pending h ?el (js ''Hello'') ?s2"
  have loop: "read_loop h ?el (map Chunk cs) (s1, []) = (?s3, Inr (js ''Hello''))"
    unfolding read_loop_chunks
    by (subst foldl_process_line_nonempty)
      (simp add: lines process_line_Hel process_line_lo, simp add: js_def)
  have m2: "chatMessages ?s2 = ?pre @ [pending_node\<lparr>shown :=
      (case sanitized_markdown h (J (JString (js ''Hel''))) of
         Some html \<Rightarrow> InnerHTML html | None \<Rightarrow> TextContent (js ''Hel''))\<rparr>]"
    unfolding el by (rule render_pending_last) (rule msgs)
  have m3: "chatMessages ?s3 = ?pre @ [message_node h (js ''assistant'') (js ''Hello'')]"
    unfolding el by (subst render_pending_last [OF m2 [unfolded el]])
      (simp add: pending_node_def message_node_def js_def split: option.splits)
  have "sendMessage h (Response True (Some (map Chunk cs))) s =
      (finally_block (saveChatHistory h (?s3\<lparr>chatHistory :=
          JArray ((xs @ [message (js ''user'') (trim (userInput_value s))]) @
                  [message (js ''assistant'') (js ''Hello'')])\<rparr>)), None)"
    by (simp add: sendMessage_def s1 settle_def try_block_def loop
        push_assistant_array [where ys = "xs @ [message (js ''user'') (trim (userInput_value s))]"]
        render_pending_simps hist)
  then show ?thesis
    by (simp add: finally_block_simps saveChatHistory_simps render_pending_simps rend m3)
qed

theorem stream_Hel_lo_witness:
  \<open>trim (userInput_value fresh_session) \<noteq> [] \<and> \<not> isProcessing fresh_session \<and>
   chatHistory fresh_session = JArray [message (js ''assistant'') welcome_text] \<and>
   filter (\<lambda>l. l \<noteq> [])
     (concat (map split_lines [js ''{"response":"Hel"}'' @ [0x0A], js ''{"response":"lo"}'' @ [0x0A]])) =
     [js ''{"response":"Hel"}'', js ''{"response":"lo"}''] \<and>
   snd (sendMessage plain_host
     (Response True (Some (map Chunk [js ''{"response":"Hel"}'' @ [0x0A], js ''{"response":"lo"}'' @ [0x0A]])))
     fresh_session) = None \<and>
   chatHistory (fst (sendMessage plain_host
     (Response True (Some (map Chunk [js ''{"response":"Hel"}'' @ [0x0A], js ''{"response":"lo"}'' @ [0x0A]])))
     fresh_session)) =
     JArray [message (js ''assistant'') welcome_text, message (js ''user'') (js ''hi''),
             message (js ''assistant'') (js ''Hello'')] \<and>
   pending_renders (fst (sendMessage plain_host
     (Response True (Some (map Chunk [js ''{"response":"Hel"}'' @ [0x0A], js ''{"response":"lo"}'' @ [0x0A]])))
     fresh_session)) = [js ''Hel'', js ''Hello'']\<close>
proof -
  have a: "trim (userInput_value fresh_session) \<noteq> []"
    by (simp add: fresh_session_accepted js_def)
  have l: \<open>filter (\<lambda>l. l \<noteq> [])
     (concat (map split_lines [js ''{"response":"Hel"}'' @ [0x0A], js ''{"response":"lo"}'' @ [0x0A]])) =
     [js ''{"response":"Hel"}'', js ''{"response":"lo"}'']\<close>
    by (simp add: js_def)
  show ?thesis
    using stream_Hel_lo [OF a fresh_session_accepted(2,3) l, of plain_host] a l
    by (simp add: fresh_session_accepted) (simp add: fresh_session_def)
qed

section \<open>The streamed reply, in general\<close>

lemma process_line_fragment:
  "process_line h el line (s, t) =
     (case fragment h line of
        None \<Rightarrow> (s, t)
      | Some f \<Rightarrow> (render_pending h el (t @ f) s, t @ f))"
  by (simp add: process_line_def fragment_def Let_def split: sum.splits)

lemma foldl_process_line:
  assumes "chatMessages s = pre @ [n]"
  shows "\<exists>s'. foldl (\<lambda>acc line. process_line h (length pre) line acc) (s, t) ls =
            (s', t @ concat (List.map_filter (fragment h) ls)) \<and>
          chatHistory s' = chatHistory s \<and> isProcessing s' = isProcessing s \<and>
          requests s' = requests s \<and> localStorage s' = localStorage s \<and>
          pending_renders s' = pending_renders s @ cumulative t (List.map_filter (fragment h) ls) \<and>
          chatMessages s' = pre @
            [case cumulative t (List.map_filter (fragment h) ls) of
               [] \<Rightarrow> n
             | c # cs \<Rightarrow> n\<lparr>shown := shown (message_node h [] (last (c # cs)))\<rparr>]"
  using assms
proof (induction ls arbitrary: s t n)
  case Nil
  then show ?case by (simp add: List.map_filter_simps)
next
  case (Cons l ls)
  show ?case
  proof (cases "fragment h l")
    case None
    with Cons.IH [OF Cons.prems, of t] show ?thesis
      by (simp add: process_line_fragment List.map_filter_simps)
  next
    case (Some f)
    let ?n = "n\<lparr>shown := shown (message_node h [] (t @ f))\<rparr>"
    let ?s = "render_pending h (length pre) (t @ f) s"
    have m: "chatMessages ?s = pre @ [?n]"
      using render_pending_last [OF Cons.prems, of h "t @ f"] by (simp add: message_node_def)
    from Cons.IH [OF m, of "t @ f"] Some show ?thesis
      by (auto simp add: process_line_fragment List.map_filter_simps render_pending_simps
          split: list.splits)
  qed
qed


lemma sendMessage_streamed:
  assumes "trim (userInput_value s) \<noteq> []" and "\<not> isProcessing s" and "chatHistory s = JArray xs"
  shows "\<exists>s'. sendMessage h (Response True (Some (map Chunk cs))) s = (s', None) \<and>
           chatHistory s' =
             JArray (xs @ [message (js ''user'') (trim (userInput_value s)),
               message (js ''assistant'')
                 (concat (List.map_filter (fragment h) (concat (map split_lines cs))))]) \<and>
           \<not> isProcessing s' \<and>
           requests s' = requests s @ [JSON_stringify h (JObject [(js ''messages'',
             JArray (xs @ [message (js ''user'') (trim (userInput_value s))]))])] \<and>
           pending_renders s' = pending_renders s @
             cumulative [] (List.map_filter (fragment h) (concat (map split_lines cs)))"
proof -
  let ?fs = "List.map_filter (fragment h) (concat (map split_lines cs))"
  let ?u = "message (js ''user'') (trim (userInput_value s))"
  from sendMessage_begin_accepted [OF assms, of h]
  obtain s1 where s1: "sendMessage_begin h s = (s1, Started (Suc (length (chatMessages s))))"
    and hist: "chatHistory s1 = JArray (xs @ [?u])"
    and req: "requests s1 = requests s @ [JSON_stringify h (JObject [(js ''messages'', chatHistory s1)])]"
    and rend: "pending_renders s1 = pending_renders s"
    and msgs: "chatMessages s1 =
      (chatMessages s @ [message_node h (js ''user'') (trim (userInput_value s))]) @ [pending_node]"
    by auto
  let ?pre = "chatMessages s @ [message_node h (js ''user'') (trim (userInput_value s))]"
  have el: "Suc (length (chatMessages s)) = length ?pre" by simp
  from foldl_process_line [OF msgs, of h "[]" "concat (map split_lines cs)"]
  obtain s2 where fold: "foldl (\<lambda>acc line. process_line h (length ?pre) line acc) (s1, [])
        (concat (map split_lines cs)) = (s2, concat ?fs)"
    and h2: "chatHistory s2 = chatHistory s1" and r2: "requests s2 = requests s1"
    and p2: "pending_renders s2 = pending_renders s1 @ cumulative [] ?fs"
    by auto
  have "sendMessage h (Response True (Some (map Chunk cs))) s =
      (finally_block (saveChatHistory h (s2\<lparr>chatHistory :=
          JArray ((xs @ [?u]) @ [message (js ''assistant'') (concat ?fs)])\<rparr>)), None)"
    using fold
    by (simp add: sendMessage_def s1 settle_def try_block_def read_loop_chunks
        push_assistant_array [where ys = "xs @ [?u]"] h2 hist)
  then show ?thesis
    by (simp add: finally_block_simps saveChatHistory_simps r2 p2 req rend hist)
qed

lemma map_filter_filter:
  assumes "\<And>x. \<not> P x \<Longrightarrow> f x = None"
  shows "List.map_filter f (filter P xs) = List.map_filter f xs"
  by (induction xs) (auto simp add: assms split: option.splits)

lemma fragment_unparsed: "isl (JSON_parse l) \<Longrightarrow> fragment h l = None"
  by (cases "JSON_parse l") (simp_all add: fragment_def)

lemma parse_ok:
  \<open>JSON_parse (js ''{"response":"ok"}'') = Inr (JObject [(js ''response'', JString (js ''ok''))])\<close>
  by code_simp

lemma parse_not_json: \<open>JSON_parse (js ''not json'') = Inl SyntaxError\<close>
  by code_simp

lemma fragment_ok: \<open>fragment h (js ''{"response":"ok"}'') = Some (js ''ok'')\<close>
  by (simp add: fragment_def parse_ok) (simp add: js_def)

text \<open>
  C2. Take any accepted submission and any body that delivers chunks and closes, in which
  the only line that parses as JSON is \<^verbatim>\<open>{"response":"ok"}\<close>, whatever malformed lines
  (such as \<^verbatim>\<open>not json\<close>) come before or after it. Then the malformed lines are skipped:
  nothing escapes \<^verbatim>\<open>sendMessage\<close>, the assistant message appended to the history has
  content \<^verbatim>\<open>ok\<close>, and the pending reply was re-rendered once, from \<^verbatim>\<open>ok\<close>.
\<close>

theorem malformed_line_skipped:
  assumes "trim (userInput_value s) \<noteq> []" and "\<not> isProcessing s" and "chatHistory s = JArray xs"
    and lines: \<open>filter (\<lambda>l. \<not> isl (JSON_parse l)) (concat (map split_lines cs)) =
      [js ''{"response":"ok"}'']\<close>
  shows "snd (sendMessage h (Response True (Some (map Chunk cs))) s) = None \<and>
         chatHistory (fst (sendMessage h (Response True (Some (map Chunk cs))) s)) =
           JArray (xs @ [message (js ''user'') (trim (userInput_value s)),
                         message (js ''assistant'') (js ''ok'')]) \<and>
         pending_renders (fst (sendMessage h (Response True (Some (map Chunk cs))) s)) =
           pending_renders s @ [js ''ok'']"
proof -
  have "List.map_filter (fragment h) (concat (map split_lines cs)) =
      List.map_filter (fragment h)
        (filter (\<lambda>l. \<not> isl (JSON_parse l)) (concat (map split_lines cs)))"
    by (rule map_filter_filter [symmetric]) (simp add: fragment_unparsed)
  then have fs: "List.map_filter (fragment h) (concat (map split_lines cs)) = [js ''ok'']"
    by (simp add: lines fragment_ok)
  from sendMessage_streamed [OF assms(1-3), of h cs] show ?thesis
    by (auto simp add: fs)
qed

theorem malformed_line_skipped_witness:
  \<open>trim (userInput_value fresh_session) \<noteq> [] \<and> \<not> isProcessing fresh_session \<and>
   chatHistory fresh_session = JArray [message (js ''assistant'') welcome_text] \<and>
   JSON_parse (js ''not json'') = Inl SyntaxError \<and>
   filter (\<lambda>l. \<not> isl (JSON_parse l))
     (concat (map split_lines [js ''not json'' @ [0x0A], js ''{"response":"ok"}'' @ [0x0A]])) =
     [js ''{"response":"ok"}''] \<and>
   snd (sendMessage plain_host
     (Response True (Some (map Chunk [js ''not json'' @ [0x0A], js ''{"response":"ok"}'' @ [0x0A]])))
     fresh_session) = None \<and>
   chatHistory (fst (sendMessage plain_host
     (Response True (Some (map Chunk [js ''not json'' @ [0x0A], js ''{"response":"ok"}'' @ [0x0A]])))
     fresh_session)) =
     JArray [message (js ''assistant'') welcome_text, message (js ''user'') (js ''hi''),
             message (js ''assistant'') (js ''ok'')] \<and>
   pending_renders (fst (sendMessage plain_host
     (Response True (Some (map Chunk [js ''not json'' @ [0x0A], js ''{"response":"ok"}'' @ [0x0A]])))
     fresh_session)) = [js ''ok'']\<close>
proof -
  have a: "trim (userInput_value fresh_session) \<noteq> []"
    by (simp add: fresh_session_accepted js_def)
  have sp: \<open>concat (map split_lines [js ''not json'' @ [0x0A], js ''{"response":"ok"}'' @ [0x0A]]) =
      [js ''not json'', [], js ''{"response":"ok"}'', []]\<close>
    by (simp add: js_def)
  have l: \<open>filter (\<lambda>l. \<not> isl (JSON_parse l))
     (concat (map split_lines [js ''not json'' @ [0x0A], js ''{"response":"ok"}'' @ [0x0A]])) =
     [js ''{"response":"ok"}'']\<close>
    unfolding sp by (simp add: parse_not_json parse_ok JSON_parse_empty)
  show ?thesis
    using malformed_line_skipped [OF a fresh_session_accepted(2,3) l, of plain_host] a l
    by (simp add: fresh_session_accepted parse_not_json) (simp add: fresh_session_def)
qed

lemma fragment_Hel: \<open>fragment h (js ''{"response":"Hel"}'') = Some (js ''Hel'')\<close>
  by (simp add: fragment_def parse_Hel) (simp add: js_def)

lemma parse_first_half: \<open>JSON_parse (js ''{"respo'') = Inl SyntaxError\<close>
  by code_simp

lemma parse_second_half: \<open>JSON_parse (js ''nse":"lo"}'') = Inl SyntaxError\<close>
  by code_simp

lemma halves: \<open>js ''{"respo'' @ js ''nse":"lo"}'' = js ''{"response":"lo"}''\<close>
  by (simp add: js_def)

text \<open>
  C3. There is a stream in which a line carrying a fragment is cut by a chunk boundary
  and the fragment is lost. The line \<^verbatim>\<open>{"response":"lo"}\<close> parses when whole; cut after
  \<^verbatim>\<open>{"respo\<close>, neither half parses. For any accepted submission, the body whose first chunk
  is \<^verbatim>\<open>{"response":"Hel"}\<close>, a line feed and the first half, and whose second chunk is the
  second half and a line feed, ends with assistant content \<^verbatim>\<open>Hel\<close>: the text \<^verbatim>\<open>lo\<close> is
  dropped, nothing is thrown, and the pending reply was rendered only from \<^verbatim>\<open>Hel\<close>.
\<close>

theorem split_line_dropped:
  assumes "trim (userInput_value s) \<noteq> []" and "\<not> isProcessing s" and "chatHistory s = JArray xs"
  shows \<open>JSON_parse (js ''{"respo'' @ js ''nse":"lo"}'') =
           Inr (JObject [(js ''response'', JString (js ''lo''))]) \<and>
         JSON_parse (js ''{"respo'') = Inl SyntaxError \<and>
         JSON_parse (js ''nse":"lo"}'') = Inl SyntaxError \<and>
         snd (sendMessage h (Response True (Some
           [Chunk (js ''{"response":"Hel"}'' @ [0x0A] @ js ''{"respo''),
            Chunk (js ''nse":"lo"}'' @ [0x0A])])) s) = None \<and>
         chatHistory (fst (sendMessage h (Response True (Some
           [Chunk (js ''{"response":"Hel"}'' @ [0x0A] @ js ''{"respo''),
            Chunk (js ''nse":"lo"}'' @ [0x0A])])) s)) =
           JArray (xs @ [message (js ''user'') (trim (userInput_value s)),
                         message (js ''assistant'') (js ''Hel'')]) \<and>
         pending_renders (fst (sendMessage h (Response True (Some
           [Chunk (js ''{"response":"Hel"}'' @ [0x0A] @ js ''{"respo''),
            Chunk (js ''nse":"lo"}'' @ [0x0A])])) s)) = pending_renders s @ [js ''Hel'']\<close>
proof -
  let ?cs = \<open>[js ''{"response":"Hel"}'' @ [0x0A] @ js ''{"respo'', js ''nse":"lo"}'' @ [0x0A]]\<close>
  have sp: \<open>concat (map split_lines ?cs) =
      [js ''{"response":"Hel"}'', js ''{"respo'', js ''nse":"lo"}'', []]\<close>
    by (simp add: js_def)
  have fs: "List.map_filter (fragment h) (concat (map split_lines ?cs)) = [js ''Hel'']"
    unfolding sp
    by (simp add: fragment_Hel fragment_unparsed parse_first_half parse_second_half JSON_parse_empty)
  from sendMessage_streamed [OF assms, of h ?cs, unfolded fs] show ?thesis
    by (auto simp add: halves parse_lo parse_first_half parse_second_half)
qed

theorem split_line_dropped_witness:
  \<open>trim (userInput_value fresh_session) \<noteq> [] \<and> \<not> isProcessing fresh_session \<and>
   chatHistory fresh_session = JArray [message (js ''assistant'') welcome_text] \<and>
   chatHistory (fst (sendMessage plain_host (Response True (Some
           [Chunk (js ''{"response":"Hel"}'' @ [0x0A] @ js ''{"respo''),
            Chunk (js ''nse":"lo"}'' @ [0x0A])])) fresh_session)) =
     JArray [message (js ''assistant'') welcome_text, message (js ''user'') (js ''hi''),
             message (js ''assistant'') (js ''Hel'')]\<close>
proof -
  have a: "trim (userInput_value fresh_session) \<noteq> []"
    by (simp add: fresh_session_accepted js_def)
  show ?thesis
    using split_line_dropped [OF a fresh_session_accepted(2,3), of plain_host] a
    by (simp add: fresh_session_accepted)
qed

lemma trim_blank: "list_all is_js_space t \<Longrightarrow> trim t = []"
  by (auto simp add: trim_def list_all_iff dest: set_dropWhileD)

text \<open>
  C7. If the text in the input consists of white space only (or is empty), its trimmed
  form is empty and \<^verbatim>\<open>sendMessage\<close> returns at once with the session unchanged: no
  request is issued and the history is not touched, whatever the network would do.
\<close>

theorem blank_submit_noop:
  assumes "list_all is_js_space (userInput_value s)"
  shows "trim (userInput_value s) = [] \<and> sendMessage_begin h s = (s, Rejected) \<and>
         sendMessage h net s = (s, None)"
  using trim_blank [OF assms] by (simp add: sendMessage_def sendMessage_begin_def)

theorem blank_submit_noop_witness:
  "list_all is_js_space (userInput_value (fresh_session\<lparr>userInput_value := [0x20, 0x09, 0x0A, 0xA0]\<rparr>)) \<and>
   sendMessage plain_host FetchFails (fresh_session\<lparr>userInput_value := [0x20, 0x09, 0x0A, 0xA0]\<rparr>) =
     (fresh_session\<lparr>userInput_value := [0x20, 0x09, 0x0A, 0xA0]\<rparr>, None)"
proof -
  have a: "list_all is_js_space (userInput_value (fresh_session\<lparr>userInput_value := [0x20, 0x09, 0x0A, 0xA0]\<rparr>))"
    by (simp add: is_js_space_def)
  show ?thesis
    using blank_submit_noop [OF a, of plain_host FetchFails] a by simp
qed

lemma get_prop_message:
  "get_prop (message r c) (js ''role'') = Inr (J (JString r))"
  "get_prop (message r c) (js ''content'') = Inr (J (JString c))"
  by (simp_all add: message_def) (simp add: js_def)

lemma render_messages_text:
  "render_messages h (map (\<lambda>(r, c). message r c) ms) s =
     (s\<lparr>chatMessages := chatMessages s @ map (\<lambda>(r, c). message_node h r c) ms\<rparr>, None)"
proof (induction ms arbitrary: s)
  case Nil
  show ?case by simp
next
  case (Cons m ms)
  show ?case
    by (cases m) (simp add: get_prop_message addMessageToChat_text Cons.IH)
qed

text \<open>
  C9. For every history that is an array of messages with text role and content,
  \<^verbatim>\<open>renderChatFromHistory\<close> does not throw and leaves, whatever was shown before, exactly
  one node per message, in the order of the history: as many nodes as messages.
\<close>

theorem renderChatFromHistory_in_order:
  assumes "chatHistory s = JArray (map (\<lambda>(r, c). message r c) ms)"
  shows "snd (renderChatFromHistory h s) = None \<and>
         chatMessages (fst (renderChatFromHistory h s)) = map (\<lambda>(r, c). message_node h r c) ms \<and>
         length (chatMessages (fst (renderChatFromHistory h s))) = length ms"
  using assms by (simp add: renderChatFromHistory_def Let_def render_messages_text)

theorem renderChatFromHistory_in_order_witness:
  "chatHistory fresh_session = JArray (map (\<lambda>(r, c). message r c) [(js ''assistant'', welcome_text)]) \<and>
   snd (renderChatFromHistory plain_host fresh_session) = None \<and>
   chatMessages (fst (renderChatFromHistory plain_host fresh_session)) =
     [\<lparr>className = js ''message assistant-message'', shown = TextContent welcome_text\<rparr>]"
proof -
  have a: "chatHistory fresh_session =
      JArray (map (\<lambda>(r, c). message r c) [(js ''assistant'', welcome_text)])"
    by (simp add: fresh_session_accepted)
  show ?thesis
    using renderChatFromHistory_in_order [OF a, of plain_host] a
    by (simp add: message_node_def plain_host_def js_def)
qed

section \<open>Loading the history\<close>

text \<open>
  C5. \<^verbatim>\<open>load\<close> returns the parsed stored content when storage can be read, holds a
  value under the history key and that value parses; it returns the default history when
  storage cannot be read, holds nothing under the key, or holds text that does not parse.
  It never throws. The default history has one element, the assistant message with the
  welcome text.
\<close>

theorem load_persisted_or_default:
  "(accessible st \<and> items st STORAGE_KEY = Some raw \<and> JSON_parse raw = Inr v \<longrightarrow> load st = Inr v) \<and>
   (\<not> accessible st \<or> items st STORAGE_KEY = None \<or>
      (\<exists>raw. items st STORAGE_KEY = Some raw \<and> isl (JSON_parse raw)) \<longrightarrow>
      load st = Inr default_history) \<and>
   (\<exists>t. load st = Inr t) \<and>
   default_history = JArray [JObject [(js ''role'', JString (js ''assistant'')),
                                      (js ''content'', JString welcome_text)]]"
proof -
  have 1: "load st = Inr v"
    if "accessible st" "items st STORAGE_KEY = Some raw" "JSON_parse raw = Inr v" for raw v
  proof -
    from that(3) have "raw \<noteq> []" by (auto simp add: JSON_parse_empty)
    with that show ?thesis by (simp add: load_def load_try_def getItem_def)
  qed
  have 2: "load st = Inr default_history"
    if "\<not> accessible st \<or> items st STORAGE_KEY = None \<or>
      (\<exists>raw. items st STORAGE_KEY = Some raw \<and> isl (JSON_parse raw))"
    using that by (auto simp add: load_def load_try_def getItem_def split: sum.splits if_splits)
  have 3: "\<exists>t. load st = Inr t"
    by (simp add: load_def split: sum.splits option.splits)
  show ?thesis
    using 1 2 3 by (simp add: default_history_def message_def)
qed


lemma parse_null: "JSON_parse (js ''null'') = Inr JNull"
  by code_simp

lemma parse_empty_object: "JSON_parse (js ''{}'') = Inr (JObject [])"
  by code_simp

lemma parse_brace: "JSON_parse (js ''{'') = Inl SyntaxError"
  by code_simp

theorem load_persisted_or_default_witness:
  "accessible (empty_storage\<lparr>items := [STORAGE_KEY \<mapsto> js ''null'']\<rparr>) \<and>
   items (empty_storage\<lparr>items := [STORAGE_KEY \<mapsto> js ''null'']\<rparr>) STORAGE_KEY = Some (js ''null'') \<and>
   JSON_parse (js ''null'') = Inr JNull \<and>
   load (empty_storage\<lparr>items := [STORAGE_KEY \<mapsto> js ''null'']\<rparr>) = Inr JNull \<and>
   items empty_storage STORAGE_KEY = None \<and>
   load empty_storage = Inr default_history \<and>
   \<not> accessible (empty_storage\<lparr>accessible := False\<rparr>) \<and>
   load (empty_storage\<lparr>accessible := False\<rparr>) = Inr default_history \<and>
   isl (JSON_parse (js ''{'')) \<and>
   load (empty_storage\<lparr>items := [STORAGE_KEY \<mapsto> js ''{'']\<rparr>) = Inr default_history"
  using load_persisted_or_default [of "empty_storage\<lparr>items := [STORAGE_KEY \<mapsto> js ''null'']\<rparr>"
      "js ''null''" JNull]
    load_persisted_or_default [of empty_storage]
    load_persisted_or_default [of "empty_storage\<lparr>accessible := False\<rparr>"]
    load_persisted_or_default [of "empty_storage\<lparr>items := [STORAGE_KEY \<mapsto> js ''{'']\<rparr>"]
  by (simp add: empty_storage_def parse_null parse_brace)

text \<open>
  C10. Whatever stored text parses as JSON, \<^verbatim>\<open>load\<close> returns the parsed value as it is,
  with no check of its shape: with \<^verbatim>\<open>null\<close> stored it returns \<^verbatim>\<open>null\<close>, with \<^verbatim>\<open>{}\<close> an
  empty object; neither is the default history, nor even something that can be iterated.
\<close>

theorem load_unvalidated:
  assumes "accessible st" and "items st STORAGE_KEY = Some raw" and "JSON_parse raw = Inr v"
  shows "load st = Inr v \<and>
         load (st\<lparr>items := (items st)(STORAGE_KEY \<mapsto> js ''null'')\<rparr>) = Inr JNull \<and>
         load (st\<lparr>items := (items st)(STORAGE_KEY \<mapsto> js ''{}'')\<rparr>) = Inr (JObject []) \<and>
         iterate JNull = Inl TypeError \<and> iterate (JObject []) = Inl TypeError \<and>
         JNull \<noteq> default_history \<and> JObject [] \<noteq> default_history"
proof -
  from assms(3) have "raw \<noteq> []" by (auto simp add: JSON_parse_empty)
  with assms have "load st = Inr v" by (simp add: load_def load_try_def getItem_def)
  moreover have "js ''null'' \<noteq> []" "js ''{}'' \<noteq> []" by (simp_all add: js_def)
  ultimately show ?thesis
    using assms(1)
    by (simp add: load_def load_try_def getItem_def parse_null parse_empty_object default_history_def)
qed

theorem load_unvalidated_witness:
  "accessible (empty_storage\<lparr>items := [STORAGE_KEY \<mapsto> js ''{}'']\<rparr>) \<and>
   items (empty_storage\<lparr>items := [STORAGE_KEY \<mapsto> js ''{}'']\<rparr>) STORAGE_KEY = Some (js ''{}'') \<and>
   JSON_parse (js ''{}'') = Inr (JObject []) \<and>
   load (empty_storage\<lparr>items := [STORAGE_KEY \<mapsto> js ''{}'']\<rparr>) = Inr (JObject [])"
proof -
  have a: "accessible (empty_storage\<lparr>items := [STORAGE_KEY \<mapsto> js ''{}'']\<rparr>)"
    by (simp add: empty_storage_def)
  have b: "items (empty_storage\<lparr>items := [STORAGE_KEY \<mapsto> js ''{}'']\<rparr>) STORAGE_KEY = Some (js ''{}'')"
    by simp
  show ?thesis
    using load_unvalidated [OF a b parse_empty_object] a b parse_empty_object by simp
qed

section \<open>Failed exchanges\<close>

lemma escape_unit_length: "length (escape_unit c) \<le> 6"
  by (simp add: escape_unit_def unicode_escape_def)
lemma quote_chars_length: "length (quote_chars s) \<le> 6 * length s"
proof (induction s rule: quote_chars.induct)
  case 1
  show ?case by simp
next
  case (2 c cs)
  show ?case
  proof (cases "is_high_surrogate c")
    case True
    show ?thesis
    proof (cases cs)
      case Nil
      with True show ?thesis by (simp add: unicode_escape_def)
    next
      case (Cons d ds)
      with True 2(1) [OF True Cons] 2(2) [OF True Cons] show ?thesis
        by (cases "is_low_surrogate d") (simp_all add: quote_chars_pair quote_chars_lone_high unicode_escape_def del: quote_chars.simps)
    qed
  next
    case False
    with 2(3) [OF False] 2(4) [OF False] escape_unit_length [of c] show ?thesis
      by (cases "is_low_surrogate c") (simp_all add: unicode_escape_def)
  qed
qed

lemma frame_refl: "frame s s"
  by (simp add: frame_def)

lemma frame_trans: "frame s s' \<Longrightarrow> frame s' s'' \<Longrightarrow> frame s s''"
  by (simp add: frame_def)

lemma process_line_frame: "frame s (fst (process_line h el l (s, t)))"
  by (simp add: process_line_fragment frame_def render_pending_simps split: option.splits)

lemma process_chunk_frame: "frame s (fst (process_chunk h el c (s, t)))"
proof -
  have "frame s (fst (foldl (\<lambda>acc line. process_line h el line acc) (s, t) ls))" for ls
  proof (induction ls rule: rev_induct)
    case Nil
    show ?case by (simp add: frame_refl)
  next
    case (snoc l ls)
    obtain s' t' where st: "foldl (\<lambda>acc line. process_line h el line acc) (s, t) ls = (s', t')"
      by (cases "foldl (\<lambda>acc line. process_line h el line acc) (s, t) ls")
    with snoc have "frame s s'" by simp
    from frame_trans [OF this process_line_frame [of s' h el l t']] st show ?case by simp
  qed
  then show ?thesis by (simp add: process_chunk_def)
qed

lemma read_loop_frame: "frame s (fst (read_loop h el evs (s, t)))"
proof (induction evs arbitrary: s t)
  case Nil
  show ?case by (simp add: frame_refl)
next
  case (Cons ev evs)
  show ?case
  proof (cases ev)
    case (Chunk c)
    obtain s' t' where st: "process_chunk h el c (s, t) = (s', t')"
      by (cases "process_chunk h el c (s, t)")
    from process_chunk_frame [of s h el c t] st have "frame s s'" by simp
    from frame_trans [OF this Cons.IH [of s' t']] Chunk st show ?thesis by simp
  next
    case ReadFails
    then show ?thesis by (simp add: frame_refl)
  qed
qed

lemma read_loop_fails:
  "ReadFails \<in> set evs \<Longrightarrow> snd (read_loop h el evs (s, t)) = Inl NetworkError"
proof (induction evs arbitrary: s t)
  case Nil
  then show ?case by simp
next
  case (Cons ev evs)
  show ?case
  proof (cases ev)
    case (Chunk c)
    obtain s' t' where st: "process_chunk h el c (s, t) = (s', t')"
      by (cases "process_chunk h el c (s, t)")
    from Cons.prems Chunk have "ReadFails \<in> set evs" by simp
    from Cons.IH [OF this, of s' t'] Chunk st show ?thesis by simp
  next
    case ReadFails
    then show ?thesis by simp
  qed
qed

lemma try_block_fails:
  assumes "request_fails net"
  shows "\<exists>s' e. try_block h el net s = (s', Some e) \<and> frame s s'"
proof (cases net)
  case FetchFails
  then show ?thesis by (simp add: try_block_def frame_refl)
next
  case (Response ok body)
  show ?thesis
  proof (cases "ok \<and> body \<noteq> None")
    case False
    with Response show ?thesis
      by (cases body) (auto simp add: try_block_def frame_refl)
  next
    case True
    then obtain evs where evs: "body = Some evs" and ok by auto
    with assms Response have "ReadFails \<in> set evs" by simp
    from read_loop_fails [OF this, of h el s "[]"] read_loop_frame [of s h el evs "[]"]
    show ?thesis
      using Response evs \<open>ok\<close>
      by (cases "read_loop h el evs (s, [])") (simp add: try_block_def)
  qed
qed


lemma sendMessage_begin_storage:
  assumes "trim (userInput_value s) \<noteq> []" and "\<not> isProcessing s" and "chatHistory s = JArray xs"
  shows "accessible (localStorage (fst (sendMessage_begin h s))) = accessible (localStorage s) \<and>
         capacity (localStorage (fst (sendMessage_begin h s))) = capacity (localStorage s)"
  using assms
  by (simp add: sendMessage_begin_def addMessageToChat_text Let_def saveChatHistory_def setItem_def)

lemma saveChatHistory_stored:
  assumes "accessible (localStorage s)"
    and "length (JSON_stringify h (chatHistory s)) \<le> capacity (localStorage s)"
  shows "items (localStorage (saveChatHistory h s)) STORAGE_KEY = Some (JSON_stringify h (chatHistory s))"
  using assms by (simp add: saveChatHistory_def setItem_def)

text \<open>
  C4, as the code has it. Take any accepted submission and any failing outcome of its
  request (\<^verbatim>\<open>fetch\<close> rejects, the response is not \<^verbatim>\<open>ok\<close>, it has no body, or a read of
  the body fails, after any number of chunks). Then nothing escapes \<^verbatim>\<open>sendMessage\<close>; the
  history in memory is the old one with the user's message and exactly one assistant
  message, the fixed error text; \<^verbatim>\<open>isProcessing\<close> is false again; one request was issued
  and no other; the last node on the page is that error message; and if storage accepts
  the write, what is stored under the history key is the serialised final history.
\<close>

theorem failed_exchange:
  assumes "trim (userInput_value s) \<noteq> []" and "\<not> isProcessing s" and "chatHistory s = JArray xs"
    and "request_fails net"
  shows "snd (sendMessage h net s) = None \<and>
         chatHistory (fst (sendMessage h net s)) =
           JArray (xs @ [message (js ''user'') (trim (userInput_value s)),
                         message (js ''assistant'') errMsg]) \<and>
         \<not> isProcessing (fst (sendMessage h net s)) \<and>
         requests (fst (sendMessage h net s)) = requests s @
           [JSON_stringify h (JObject [(js ''messages'',
              JArray (xs @ [message (js ''user'') (trim (userInput_value s))]))])] \<and>
         last (chatMessages (fst (sendMessage h net s))) = message_node h (js ''assistant'') errMsg \<and>
         (accessible (localStorage s) \<and>
          length (JSON_stringify h (chatHistory (fst (sendMessage h net s)))) \<le> capacity (localStorage s) \<longrightarrow>
          items (localStorage (fst (sendMessage h net s))) STORAGE_KEY =
            Some (JSON_stringify h (chatHistory (fst (sendMessage h net s)))))"
proof -
  let ?u = "message (js ''user'') (trim (userInput_value s))"
  let ?el = "Suc (length (chatMessages s))"
  from sendMessage_begin_accepted [OF assms(1-3), of h]
  obtain s1 where s1: "sendMessage_begin h s = (s1, Started ?el)"
    and hist: "chatHistory s1 = JArray (xs @ [?u])"
    and req: "requests s1 = requests s @ [JSON_stringify h (JObject [(js ''messages'', chatHistory s1)])]"
    by auto
  from sendMessage_begin_storage [OF assms(1-3), of h] s1
  have sto: "accessible (localStorage s1) = accessible (localStorage s)"
    "capacity (localStorage s1) = capacity (localStorage s)"
    by simp_all
  from try_block_fails [OF assms(4), of h ?el s1]
  obtain s2 e where s2: "try_block h ?el net s1 = (s2, Some e)" and fr: "frame s1 s2"
    by auto
  let ?s3 = "s2\<lparr>chatMessages := chatMessages s2 @ [message_node h (js ''assistant'') errMsg],
               chatHistory := JArray ((xs @ [?u]) @ [message (js ''assistant'') errMsg])\<rparr>"
  have h2: "chatHistory s2 = JArray (xs @ [?u])"
    using fr hist by (simp add: frame_def)
  have "catch_block h s2 = (saveChatHistory h ?s3, None)"
    by (simp add: catch_block_def addMessageToChat_text
        push_assistant_array [where ys = "xs @ [?u]"] h2)
  then have res: "sendMessage h net s = (finally_block (saveChatHistory h ?s3), None)"
    by (simp add: sendMessage_def s1 settle_def s2)
  have stored: "items (localStorage (saveChatHistory h ?s3)) STORAGE_KEY =
      Some (JSON_stringify h (chatHistory ?s3))"
    if "accessible (localStorage s)"
      and "length (JSON_stringify h (chatHistory ?s3)) \<le> capacity (localStorage s)"
  proof (rule saveChatHistory_stored)
    show "accessible (localStorage ?s3)"
      using that(1) fr sto by (simp add: frame_def)
    show "length (JSON_stringify h (chatHistory ?s3)) \<le> capacity (localStorage ?s3)"
      using that(2) fr sto by (simp add: frame_def)
  qed
  have r2: "requests s2 = requests s1"
    using fr by (simp add: frame_def)
  show ?thesis
    unfolding res
    using stored
    by (simp add: finally_block_simps saveChatHistory_simps r2 req hist)
qed

theorem failed_exchange_witness:
  "trim (userInput_value fresh_session) \<noteq> [] \<and> \<not> isProcessing fresh_session \<and>
   chatHistory fresh_session = JArray [message (js ''assistant'') welcome_text] \<and>
   request_fails (Response False None) \<and>
   snd (sendMessage plain_host (Response False None) fresh_session) = None \<and>
   chatHistory (fst (sendMessage plain_host (Response False None) fresh_session)) =
     JArray [message (js ''assistant'') welcome_text, message (js ''user'') (js ''hi''),
             message (js ''assistant'') errMsg] \<and>
   \<not> isProcessing (fst (sendMessage plain_host (Response False None) fresh_session)) \<and>
   length (requests (fst (sendMessage plain_host (Response False None) fresh_session))) = 1 \<and>
   accessible (localStorage fresh_session) \<and>
   length (JSON_stringify plain_host
       (JArray [message (js ''assistant'') welcome_text, message (js ''user'') (js ''hi''),
                message (js ''assistant'') errMsg])) \<le> capacity (localStorage fresh_session) \<and>
   items (localStorage (fst (sendMessage plain_host (Response False None) fresh_session))) STORAGE_KEY =
     Some (JSON_stringify plain_host
       (JArray [message (js ''assistant'') welcome_text, message (js ''user'') (js ''hi''),
                message (js ''assistant'') errMsg]))"
proof -
  have a: "trim (userInput_value fresh_session) \<noteq> []"
    by (simp add: fresh_session_accepted js_def)
  have f: "request_fails (Response False None)" by simp
  have c: "length (JSON_stringify plain_host
       (JArray [message (js ''assistant'') welcome_text, message (js ''user'') (js ''hi''),
                message (js ''assistant'') errMsg])) \<le> 100000"
  proof -
    have q: "length (quote t) \<le> 6 * length t + 2" for t
      using quote_chars_length [of t] by (simp add: quote_def)
    show ?thesis
      using q [of welcome_text] q [of errMsg] q [of "js ''hi''"] q [of "js ''role''"]
        q [of "js ''content''"] q [of "js ''assistant''"] q [of "js ''user''"]
      by (simp add: message_def) (simp add: js_def welcome_text_def errMsg_def)
  qed
  have d: "accessible (localStorage fresh_session)" "capacity (localStorage fresh_session) = 100000"
    by (simp_all add: fresh_session_def empty_storage_def)
  show ?thesis
    using failed_exchange [OF a fresh_session_accepted(2,3) f, of plain_host] a c d
    by (simp add: fresh_session_accepted) (simp add: fresh_session_def)
qed

lemma saveChatHistory_full:
  "capacity (localStorage s) = 0 \<Longrightarrow> chatHistory s = JArray ys \<Longrightarrow> saveChatHistory h s = s"
  by (simp add: saveChatHistory_def setItem_def js_def)

lemma failed_exchange_unsaved:
  assumes "trim (userInput_value s) \<noteq> []" and "\<not> isProcessing s" and "chatHistory s = JArray xs"
    and "request_fails net" and "capacity (localStorage s) = 0"
  shows "localStorage (fst (sendMessage h net s)) = localStorage s"
proof -
  let ?u = "message (js ''user'') (trim (userInput_value s))"
  let ?el = "Suc (length (chatMessages s))"
  from sendMessage_begin_accepted [OF assms(1-3), of h]
  obtain s1 where s1: "sendMessage_begin h s = (s1, Started ?el)"
    and hist: "chatHistory s1 = JArray (xs @ [?u])"
    by auto
  from s1 assms(1-3,5) have st1: "localStorage s1 = localStorage s"
    by (auto simp add: sendMessage_begin_def addMessageToChat_text Let_def saveChatHistory_full)
  from try_block_fails [OF assms(4), of h ?el s1]
  obtain s2 e where s2: "try_block h ?el net s1 = (s2, Some e)" and fr: "frame s1 s2"
    by auto
  let ?s3 = "s2\<lparr>chatMessages := chatMessages s2 @ [message_node h (js ''assistant'') errMsg],
               chatHistory := JArray ((xs @ [?u]) @ [message (js ''assistant'') errMsg])\<rparr>"
  have h2: "chatHistory s2 = JArray (xs @ [?u])"
    using fr hist by (simp add: frame_def)
  have st2: "localStorage s2 = localStorage s"
    using fr st1 by (simp add: frame_def)
  have "catch_block h s2 = (saveChatHistory h ?s3, None)"
    by (simp add: catch_block_def addMessageToChat_text
        push_assistant_array [where ys = "xs @ [?u]"] h2)
  then have res: "sendMessage h net s = (finally_block (saveChatHistory h ?s3), None)"
    by (simp add: sendMessage_def s1 settle_def s2)
  have "saveChatHistory h ?s3 = ?s3"
    by (rule saveChatHistory_full) (simp_all add: st2 assms(5))
  with res st2 show ?thesis
    by (simp add: finally_block_simps)
qed

text \<open>
  C4, the part that does not hold as stated: the message need not reach durable storage.
  With a storage that refuses every write (no room left), a failed exchange leaves
  nothing under the history key, and \<^verbatim>\<open>load\<close> in a new session gives the default history,
  without the error message.
\<close>

theorem failed_exchange_not_stored:
  "trim (userInput_value (fresh_session\<lparr>localStorage := empty_storage\<lparr>capacity := 0\<rparr>\<rparr>)) \<noteq> [] \<and>
   \<not> isProcessing (fresh_session\<lparr>localStorage := empty_storage\<lparr>capacity := 0\<rparr>\<rparr>) \<and>
   request_fails (Response False None) \<and>
   items (localStorage (fst (sendMessage plain_host (Response False None)
     (fresh_session\<lparr>localStorage := empty_storage\<lparr>capacity := 0\<rparr>\<rparr>)))) STORAGE_KEY = None \<and>
   load (localStorage (fst (sendMessage plain_host (Response False None)
     (fresh_session\<lparr>localStorage := empty_storage\<lparr>capacity := 0\<rparr>\<rparr>)))) =
     Inr (JArray [message (js ''assistant'') welcome_text])"
proof -
  let ?s = "fresh_session\<lparr>localStorage := empty_storage\<lparr>capacity := 0\<rparr>\<rparr>"
  have a: "trim (userInput_value ?s) \<noteq> []" "\<not> isProcessing ?s"
    "chatHistory ?s = JArray [message (js ''assistant'') welcome_text]"
    using fresh_session_accepted by (simp_all add: js_def)
  have f: "request_fails (Response False None)" by simp
  have c: "capacity (localStorage ?s) = 0" by simp
  from failed_exchange_unsaved [OF a f c, of plain_host]
  have "localStorage (fst (sendMessage plain_host (Response False None) ?s)) =
      empty_storage\<lparr>capacity := 0\<rparr>"
    by simp
  then show ?thesis
    using a by (simp add: empty_storage_def load_def load_try_def getItem_def default_history_def)
qed


section \<open>\<^verbatim>\<open>JSON.parse\<close> after \<^verbatim>\<open>JSON.stringify\<close>\<close>

lemma hex_value_digit: "d < 16 \<Longrightarrow> hex_value (hex_digit d) = Some d"
  by (simp add: hex_value_def hex_digit_def)

lemma hex4_digits:
  fixes c :: nat
  assumes "c < 65536"
  shows "((c div 4096 mod 16 * 16 + c div 256 mod 16) * 16 + c div 16 mod 16) * 16 + c mod 16 = c"
proof -
  have a: "c div 4096 mod 16 = c div 4096" using assms by simp
  have b: "c div 256 = c div 4096 * 16 + c div 256 mod 16"
    using div_mult_mod_eq [of "c div 256" 16] by (simp add: div_mult2_eq [symmetric])
  have d: "c div 16 = c div 256 * 16 + c div 16 mod 16"
    using div_mult_mod_eq [of "c div 16" 16] by (simp add: div_mult2_eq [symmetric])
  have e: "c = c div 16 * 16 + c mod 16" by simp
  show ?thesis using a b d e by simp
qed


lemma hex4_value_digits:
  assumes "a < 16" "b < 16" "x < 16" "y < 16"
  shows "hex4_value (hex_digit a) (hex_digit b) (hex_digit x) (hex_digit y) =
           Some (((a * 16 + b) * 16 + x) * 16 + y)"
  using assms by (simp add: hex4_value_def hex_value_digit)

lemma hex4_value_escape:
  assumes "c < 65536"
  shows "hex4_value (hex_digit (c div 4096 mod 16)) (hex_digit (c div 256 mod 16))
           (hex_digit (c div 16 mod 16)) (hex_digit (c mod 16)) = Some c"
proof -
  have "hex4_value (hex_digit (c div 4096 mod 16)) (hex_digit (c div 256 mod 16))
           (hex_digit (c div 16 mod 16)) (hex_digit (c mod 16)) =
        Some (((c div 4096 mod 16 * 16 + c div 256 mod 16) * 16 + c div 16 mod 16) * 16 + c mod 16)"
    by (rule hex4_value_digits) simp_all
  then show ?thesis
    by (simp only: hex4_digits [OF assms])
qed

lemma parse_chars_unicode_escape:
  assumes "c < 65536"
  shows "parse_chars (unicode_escape c @ s) =
           (case parse_chars s of None \<Rightarrow> None | Some (t, rest) \<Rightarrow> Some (c # t, rest))"
  using hex4_value_escape [OF assms] by (simp add: unicode_escape_def)

lemma parse_chars_escape_unit:
  assumes "c < 0xD800 \<or> 0xDFFF < c"
  shows "parse_chars (escape_unit c @ s) =
           (case parse_chars s of None \<Rightarrow> None | Some (t, rest) \<Rightarrow> Some (c # t, rest))"
proof (cases "c < 0x20")
  case True
  then have "c < 65536" by simp
  from parse_chars_unicode_escape [OF this, of s] True show ?thesis
    by (auto simp add: escape_unit_def unescape_def)
next
  case False
  then show ?thesis
    by (auto simp add: escape_unit_def unescape_def)
qed


lemma parse_chars_copy:
  "0x20 \<le> c \<Longrightarrow> c \<noteq> 0x22 \<Longrightarrow> c \<noteq> 0x5C \<Longrightarrow>
   parse_chars (c # s) =
     (case parse_chars s of None \<Rightarrow> None | Some (t, rest) \<Rightarrow> Some (c # t, rest))"
  by simp

lemma parse_chars_quote_chars:
  "parse_chars (quote_chars s @ 0x22 # rest) = Some (s, rest)"
proof (induction s rule: quote_chars.induct)
  case 1
  show ?case by simp
next
  case (2 c cs)
  show ?case
  proof (cases "is_high_surrogate c")
    case True
    then have c: "c < 65536" "0x20 \<le> c" "c \<noteq> 0x22" "c \<noteq> 0x5C"
      by (simp_all add: is_high_surrogate_def)
    show ?thesis
    proof (cases cs)
      case Nil
      with True show ?thesis
        by (simp add: parse_chars_unicode_escape [OF c(1)] del: parse_chars.simps)
          simp
    next
      case (Cons d ds)
      show ?thesis
      proof (cases "is_low_surrogate d")
        case low: True
        then have d: "0x20 \<le> d" "d \<noteq> 0x22" "d \<noteq> 0x5C"
          by (simp_all add: is_low_surrogate_def)
        from 2(1) [OF True Cons low] show ?thesis
          unfolding Cons quote_chars_pair [OF True low]
          by (simp add: parse_chars_copy [OF c(2-4)] parse_chars_copy [OF d]
              del: parse_chars.simps)
      next
        case False
        from 2(2) [OF True Cons False] show ?thesis
          unfolding Cons quote_chars_lone_high [OF True False]
          by (simp add: parse_chars_unicode_escape [OF c(1)]
              del: parse_chars.simps quote_chars.simps)
      qed
    qed
  next
    case False
    show ?thesis
    proof (cases "is_low_surrogate c")
      case True
      then have c: "c < 65536" by (simp add: is_low_surrogate_def)
      from 2(3) [OF False True] False True show ?thesis
        by (simp add: parse_chars_unicode_escape [OF c] del: parse_chars.simps)
    next
      case low: False
      from False low have "c < 0xD800 \<or> 0xDFFF < c"
        by (auto simp add: is_high_surrogate_def is_low_surrogate_def)
      from 2(4) [OF False low] False low parse_chars_escape_unit [OF this] show ?thesis
        by (simp del: parse_chars.simps)
    qed
  qed
qed

lemma parse_chars_quote: "parse_chars (tl (quote s) @ rest) = Some (s, rest)"
  by (simp add: quote_def parse_chars_quote_chars del: parse_chars.simps)

lemma skip_ws_Cons: "skip_ws s = c # cs \<Longrightarrow> length cs < length s"
proof -
  assume a: "skip_ws s = c # cs"
  have "length (skip_ws s) \<le> length s"
    by (simp add: skip_ws_def length_dropWhile_le)
  with a show ?thesis by simp
qed

lemma parse_chars_length: "parse_chars s = Some (t, r) \<Longrightarrow> length r < length s"
proof (induction s arbitrary: t r rule: parse_chars.induct)
  case 1
  then show ?case by simp
next
  case (2 c cs)
  from "2.prems" [unfolded parse_chars.simps] "2.IH" show ?case
    by (fastforce simp del: parse_chars.simps split: if_splits list.splits option.splits)
qed

lemma parse_digits_length:
  assumes "parse_digits s = Some (ds, r)"
  shows "length r < length s"
proof -
  from assms have ds: "takeWhile is_digit s \<noteq> []" and r: "r = dropWhile is_digit s"
    by (auto simp add: parse_digits_def Let_def split: if_splits)
  have "length (takeWhile is_digit s) + length (dropWhile is_digit s) = length s"
    by (metis length_append takeWhile_dropWhile_id)
  moreover from ds have "0 < length (takeWhile is_digit s)"
    by (simp del: takeWhile_eq_Nil_iff)
  ultimately show ?thesis
    unfolding r by linarith
qed

lemma parse_fraction_length: "parse_fraction s = Some (fs, r) \<Longrightarrow> length r \<le> length s"
  by (auto simp add: parse_fraction_def split: list.splits if_splits option.splits
      dest!: parse_digits_length)

lemma parse_exponent_length: "parse_exponent s = Some (es, r) \<Longrightarrow> length r \<le> length s"
  by (auto simp add: parse_exponent_def split: list.splits if_splits option.splits
      dest!: parse_digits_length)

lemma parse_unsigned_length: "parse_unsigned s = Some (t, r) \<Longrightarrow> length r < length s"
  by (fastforce simp add: parse_unsigned_def split: if_splits option.splits
      dest!: parse_digits_length parse_fraction_length parse_exponent_length)

lemma parse_number_length: "parse_number s = Some (t, r) \<Longrightarrow> length r < length s"
  by (fastforce simp add: parse_number_def split: list.splits if_splits option.splits
      dest!: parse_unsigned_length)

lemma take_prefix_length: "take_prefix p s = Some r \<Longrightarrow> length r + length p = length s"
proof -
  assume "take_prefix p s = Some r"
  then have p: "take (length p) s = p" and r: "r = drop (length p) s"
    by (auto simp add: take_prefix_def split: if_splits)
  from p have "length (take (length p) s) = length p" by simp
  then have "length p \<le> length s" by simp
  with r show ?thesis by simp
qed

lemmas parse_simps_del = parse_value.simps parse_elements.simps parse_members.simps

lemma parse_length:
  "parse_value n s = Parsed v r \<Longrightarrow> length r < length s"
  "parse_elements n acc s = Parsed v r \<Longrightarrow> length r < length s"
  "parse_members n ms s = Parsed v r \<Longrightarrow> length r < length s"
proof (induction n s and n acc s and n ms s arbitrary: v r and v r and v r
    rule: parse_value_parse_elements_parse_members.induct)
  case (1 s)
  then show ?case by simp
next
  case (2 n s)
  from "2.prems" [unfolded parse_value.simps] "2.IH" show ?case
    by (fastforce simp del: parse_simps_del simp add: js_def
        split: list.splits if_splits option.splits
        dest: skip_ws_Cons parse_chars_length parse_number_length take_prefix_length)
next
  case (3 acc s)
  then show ?case by simp
next
  case (4 n acc s)
  from "4.prems" [unfolded parse_elements.simps] "4.IH" show ?case
    by (fastforce simp del: parse_simps_del split: list.splits if_splits parsed.splits
        dest: skip_ws_Cons)
next
  case (5 ms s)
  then show ?case by simp
next
  case (6 n ms s)
  from "6.prems" [unfolded parse_members.simps] "6.IH" show ?case
    by (fastforce simp del: parse_simps_del split: list.splits if_splits parsed.splits option.splits
        dest: skip_ws_Cons parse_chars_length)
qed


text \<open>Fuel: twice the length of the text, and one more, is always enough.\<close>

lemma parse_fuel:
  "2 * length s < n \<Longrightarrow> parse_value n s \<noteq> NoFuel"
  "2 * length s + 1 < n \<Longrightarrow> parse_elements n acc s \<noteq> NoFuel"
  "2 * length s + 1 < n \<Longrightarrow> parse_members n ms s \<noteq> NoFuel"
proof (induction n s and n acc s and n ms s
    rule: parse_value_parse_elements_parse_members.induct)
  case (1 s)
  then show ?case by simp
next
  case (2 n s)
  from "2.prems" "2.IH" show ?case
    unfolding parse_value.simps
    by (fastforce simp del: parse_simps_del
        split: list.splits if_splits option.splits
        dest: skip_ws_Cons)
next
  case (3 acc s)
  then show ?case by simp
next
  case (4 n acc s)
  from "4.prems" "4.IH" show ?case
    unfolding parse_elements.simps
    by (fastforce simp del: parse_simps_del split: list.splits if_splits parsed.splits
        dest: skip_ws_Cons parse_length(1))
next
  case (5 ms s)
  then show ?case by simp
next
  case (6 n ms s)
  from "6.prems" "6.IH" show ?case
    unfolding parse_members.simps
    by (fastforce simp del: parse_simps_del split: list.splits if_splits parsed.splits option.splits
        dest: skip_ws_Cons parse_chars_length parse_length(1))
qed


text \<open>More fuel does not change a result that did not run out of it.\<close>

lemma parse_fuel_Suc:
  "parse_value n s \<noteq> NoFuel \<Longrightarrow> parse_value (Suc n) s = parse_value n s"
  "parse_elements n acc s \<noteq> NoFuel \<Longrightarrow> parse_elements (Suc n) acc s = parse_elements n acc s"
  "parse_members n ms s \<noteq> NoFuel \<Longrightarrow> parse_members (Suc n) ms s = parse_members n ms s"
proof (induction n s and n acc s and n ms s
    rule: parse_value_parse_elements_parse_members.induct)
  case (1 s)
  then show ?case by simp
next
  case (2 n s)
  from "2.prems" "2.IH" show ?case
    unfolding parse_value.simps(2) [of "Suc n" s] parse_value.simps(2) [of n s]
    by (auto simp del: parse_simps_del split: list.splits if_splits option.splits)
next
  case (3 acc s)
  then show ?case by simp
next
  case (4 n acc s)
  from "4.prems" "4.IH" show ?case
    unfolding parse_elements.simps(2) [of "Suc n" acc s] parse_elements.simps(2) [of n acc s]
    by (auto simp del: parse_simps_del split: list.splits if_splits parsed.splits)
next
  case (5 ms s)
  then show ?case by simp
next
  case (6 n ms s)
  from "6.prems" "6.IH" show ?case
    unfolding parse_members.simps(2) [of "Suc n" ms s] parse_members.simps(2) [of n ms s]
    by (auto simp del: parse_simps_del split: list.splits if_splits parsed.splits option.splits)
qed

lemma parse_value_more_fuel:
  assumes "parse_value n s = Parsed v r"
  shows "parse_value (n + k) s = Parsed v r"
proof (induction k)
  case 0
  from assms show ?case by simp
next
  case (Suc k)
  then have "parse_value (n + k) s \<noteq> NoFuel" by simp
  from parse_fuel_Suc(1) [OF this] Suc show ?case
    by (simp del: parse_simps_del)
qed

lemma skip_ws_keep: "\<not> is_json_ws c \<Longrightarrow> skip_ws (c # s) = c # s"
  by (simp add: skip_ws_def)

lemma stringify_head:
  "stable v \<Longrightarrow> \<exists>c t. JSON_stringify h v = c # t \<and> \<not> is_json_ws c \<and>
     c \<noteq> cu CHR '']'' \<and> c \<noteq> cu CHR ''}'' \<and> c \<noteq> cu CHR '',''"
  by (cases v) (simp_all add: js_def quote_def is_json_ws_def)


lemma parse_elements_join:
  assumes "\<And>x n rest. x \<in> set xs \<Longrightarrow> need x \<le> n \<Longrightarrow>
             parse_value n (JSON_stringify h x @ rest) = Parsed x rest"
    and "xs \<noteq> []"
    and "sum_list (map (\<lambda>x. Suc (need x)) xs) \<le> n"
  shows "parse_elements n acc (join (js '','') (map (JSON_stringify h) xs) @ js '']'' @ rest) =
           Parsed (JArray (acc @ xs)) rest"
  using assms
proof (induction xs arbitrary: acc n)
  case Nil
  then show ?case by simp
next
  case (Cons x xs)
  from Cons.prems(3) obtain m where n: "n = Suc m" and x: "need x \<le> m"
    and m: "sum_list (map (\<lambda>x. Suc (need x)) xs) \<le> m"
    by (cases n) auto
  show ?case
  proof (cases xs)
    case Nil
    from Cons.prems(1) [of x m "js '']'' @ rest"] x show ?thesis
      unfolding n Nil
      by (simp add: js_def skip_ws_keep is_json_ws_def)
  next
    case (Cons y ys)
    have tail: "parse_elements m (acc @ [x])
        (join (js '','') (map (JSON_stringify h) xs) @ js '']'' @ rest) =
        Parsed (JArray ((acc @ [x]) @ xs)) rest"
      using Cons.prems(1) m Cons by (intro Cons.IH) simp_all
    from Cons.prems(1) [of x m "js '','' @ join (js '','') (map (JSON_stringify h) xs) @ js '']'' @ rest"]
      x tail show ?thesis
      unfolding n Cons
      by (simp add: js_def skip_ws_keep is_json_ws_def)
  qed
qed


lemma parse_members_join:
  assumes "\<And>v n rest. v \<in> snd ` set kvs \<Longrightarrow> need v \<le> n \<Longrightarrow>
             parse_value n (JSON_stringify h v @ rest) = Parsed v rest"
    and "kvs \<noteq> []"
    and "sum_list (map (\<lambda>x. Suc (need x)) (map snd kvs)) \<le> n"
  shows "parse_members n acc
           (join (js '','') (map (\<lambda>(k, v). quote k @ js '':'' @ JSON_stringify h v) kvs) @
            js ''}'' @ rest) =
           Parsed (JObject (foldl (\<lambda>acc (k, v). obj_put acc k v) acc kvs)) rest"
  using assms
proof (induction kvs arbitrary: acc n)
  case Nil
  then show ?case by simp
next
  case (Cons kv kvs)
  obtain k v where kv: "kv = (k, v)" by (cases kv)
  from Cons.prems(3) obtain m where n: "n = Suc m" and v: "need v \<le> m"
    and m: "sum_list (map (\<lambda>x. Suc (need x)) (map snd kvs)) \<le> m"
    by (cases n) (auto simp add: kv)
  have key: "parse_chars (quote_chars k @ 0x22 # s) = Some (k, s)" for s
    by (rule parse_chars_quote_chars)
  show ?case
  proof (cases kvs)
    case Nil
    from Cons.prems(1) [of v m "js ''}'' @ rest"] v show ?thesis
      unfolding n Nil kv
      by (simp add: js_def quote_def key skip_ws_keep is_json_ws_def del: parse_chars.simps)
  next
    case more: (Cons kv' kvs')
    have tail: "parse_members m (obj_put acc k v)
        (join (js '','') (map (\<lambda>(k, v). quote k @ js '':'' @ JSON_stringify h v) kvs) @
         js ''}'' @ rest) =
        Parsed (JObject (foldl (\<lambda>acc (k, v). obj_put acc k v) (obj_put acc k v) kvs)) rest"
      using Cons.prems(1) m more by (intro Cons.IH) simp_all
    from Cons.prems(1) [of v m "js '','' @
        join (js '','') (map (\<lambda>(k, v). quote k @ js '':'' @ JSON_stringify h v) kvs) @
        js ''}'' @ rest"]
      v tail show ?thesis
      unfolding n kv
      by (simp add: more js_def quote_def key skip_ws_keep is_json_ws_def del: parse_chars.simps)
  qed
qed


lemma parse_value_stringify:
  "stable v \<Longrightarrow> need v \<le> n \<Longrightarrow> parse_value n (JSON_stringify h v @ rest) = Parsed v rest"
proof (induction v arbitrary: n rest)
  case JNull
  then obtain m where "n = Suc m" by (cases n) auto
  then show ?case
    by (simp add: js_def skip_ws_keep is_json_ws_def take_prefix_def)
next
  case (JBool b)
  then obtain m where "n = Suc m" by (cases n) auto
  then show ?case
    by (simp add: js_def skip_ws_keep is_json_ws_def take_prefix_def)
next
  case (JNumber t)
  then show ?case by simp
next
  case (JString s)
  then obtain m where "n = Suc m" by (cases n) auto
  then show ?case
    by (simp add: quote_def skip_ws_keep is_json_ws_def parse_chars_quote_chars
        del: parse_chars.simps)
next
  case (JArray xs)
  from JArray.prems(2) obtain m where n: "n = Suc m"
    and m: "sum_list (map (\<lambda>x. Suc (need x)) xs) \<le> m"
    by (cases n) auto
  show ?case
  proof (cases xs)
    case Nil
    then show ?thesis
      unfolding n by (simp add: js_def skip_ws_keep is_json_ws_def)
  next
    case (Cons y ys)
    from JArray.prems(1) Cons have "stable y" by simp
    from stringify_head [OF this, of h]
    obtain c t where head: "JSON_stringify h y = c # t" "\<not> is_json_ws c" "c \<noteq> cu CHR '']''"
      by auto
    have "parse_elements m [] (join (js '','') (map (JSON_stringify h) xs) @ js '']'' @ rest) =
        Parsed (JArray ([] @ xs)) rest"
    proof (rule parse_elements_join)
      fix x k r
      assume "x \<in> set xs" "need x \<le> k"
      with JArray.prems(1) show "parse_value k (JSON_stringify h x @ r) = Parsed x r"
        by (intro JArray.IH) (simp_all add: list_all_iff)
    qed (use Cons m in simp_all)
    moreover have "\<exists>t'. join (js '','') (map (JSON_stringify h) xs) @ js '']'' @ rest = c # t'"
      unfolding Cons using head(1) by (cases ys) simp_all
    ultimately show ?thesis
      unfolding n using head(2,3)
      by (auto simp add: js_def skip_ws_keep is_json_ws_def)
  qed
next
  case (JObject kvs)
  from JObject.prems(2) obtain m where n: "n = Suc m"
    and m: "sum_list (map (\<lambda>x. Suc (need x)) (map snd kvs)) \<le> m"
    by (cases n) auto
  from JObject.prems(1) have canon: "foldl (\<lambda>acc (k, v). obj_put acc k v) [] kvs = kvs"
    and st: "list_all stable (map snd kvs)"
    by simp_all
  show ?case
  proof (cases kvs)
    case Nil
    then show ?thesis
      unfolding n by (simp add: js_def skip_ws_keep is_json_ws_def)
  next
    case (Cons kv kvs')
    have "parse_members m []
        (join (js '','') (map (\<lambda>(k, v). quote k @ js '':'' @ JSON_stringify h v) kvs) @
         js ''}'' @ rest) =
        Parsed (JObject (foldl (\<lambda>acc (k, v). obj_put acc k v) [] kvs)) rest"
    proof (rule parse_members_join)
      fix v k r
      assume v: "v \<in> snd ` set kvs" "need v \<le> k"
      then obtain kv where "kv \<in> set kvs" "v \<in> Basic_BNFs.snds kv"
        by (auto simp add: snds.simps)
      moreover from v st have "stable v" by (auto simp add: list_all_iff)
      ultimately show "parse_value k (JSON_stringify h v @ r) = Parsed v r"
        using v(2) by (intro JObject.IH)
    qed (use Cons m in simp_all)
    moreover have "\<exists>t'. join (js '','') (map (\<lambda>(k, v). quote k @ js '':'' @ JSON_stringify h v) kvs) @
         js ''}'' @ rest = 0x22 # t'"
      unfolding Cons by (cases kv; cases kvs') (simp_all add: quote_def)
    ultimately show ?thesis
      unfolding n
      by (auto simp add: canon js_def skip_ws_keep is_json_ws_def)
  qed
qed

lemma parse_value_fuel_add:
  "parse_value n s \<noteq> NoFuel \<Longrightarrow> parse_value (n + k) s = parse_value n s"
proof (induction k)
  case 0
  show ?case by simp
next
  case (Suc k)
  then have "parse_value (n + k) s \<noteq> NoFuel" by simp
  from parse_fuel_Suc(1) [OF this] Suc show ?case
    by (simp del: parse_simps_del)
qed

text \<open>\<^verbatim>\<open>JSON.parse(JSON.stringify(v))\<close> gives \<open>v\<close> back, for every host.\<close>

lemma JSON_parse_stringify:
  assumes "stable v"
  shows "JSON_parse (JSON_stringify h v) = Inr v"
proof -
  let ?s = "JSON_stringify h v"
  let ?F = "Suc (2 * length ?s)"
  have "parse_value ?F ?s \<noteq> NoFuel"
    by (rule parse_fuel(1)) simp
  then have "parse_value (?F + need v) ?s = parse_value ?F ?s"
    by (rule parse_value_fuel_add)
  moreover have "parse_value (?F + need v) (?s @ []) = Parsed v []"
    by (rule parse_value_stringify [OF assms]) simp
  ultimately have "parse_value ?F ?s = Parsed v []"
    by (simp del: parse_simps_del)
  then show ?thesis
    by (simp add: JSON_parse_def skip_ws_def del: parse_simps_del)
qed

lemma stable_message: "stable (message r c)"
  by (simp add: message_def obj_put_def is_array_index_def js_def is_digit_def)

text \<open>
  C8. Take a history that is an array of stable values (an array of messages is one) and
  any message with text role and content. If the write of \<^verbatim>\<open>saveChatHistory\<close> after
  pushing the message succeeds, then \<^verbatim>\<open>load\<close> on the storage it leaves returns the
  history with the message as its last element.
\<close>

theorem append_load_round_trip:
  assumes "chatHistory s = JArray xs" and "list_all stable xs"
    and "setItem (localStorage s) STORAGE_KEY (JSON_stringify h (JArray (xs @ [message r c]))) = Inr st"
  shows "array_push (chatHistory s) (message r c) = Inr (JArray (xs @ [message r c])) \<and>
         localStorage (saveChatHistory h (s\<lparr>chatHistory := JArray (xs @ [message r c])\<rparr>)) = st \<and>
         load st = Inr (JArray (xs @ [message r c])) \<and>
         last (xs @ [message r c]) = message r c"
proof -
  let ?v = "JArray (xs @ [message r c])"
  from assms(2) have "stable ?v"
    by (simp add: stable_message)
  then have p: "JSON_parse (JSON_stringify h ?v) = Inr ?v"
    by (rule JSON_parse_stringify)
  from assms(3) have st: "accessible st" "items st STORAGE_KEY = Some (JSON_stringify h ?v)"
    by (auto simp add: setItem_def split: if_splits)
  have ne: "JSON_stringify h ?v \<noteq> []"
    by (simp add: js_def)
  from st p ne have "load st = Inr ?v"
    by (simp add: load_def load_try_def getItem_def)
  with assms(1,3) show ?thesis
    by (simp add: saveChatHistory_def)
qed

theorem append_load_round_trip_witness:
  "chatHistory fresh_session = JArray [message (js ''assistant'') welcome_text] \<and>
   list_all stable [message (js ''assistant'') welcome_text] \<and>
   setItem (localStorage fresh_session) STORAGE_KEY
     (JSON_stringify plain_host
        (JArray ([message (js ''assistant'') welcome_text] @ [message (js ''user'') (js ''hi'')]))) =
     Inr (empty_storage\<lparr>items := [STORAGE_KEY \<mapsto> JSON_stringify plain_host
        (JArray ([message (js ''assistant'') welcome_text] @ [message (js ''user'') (js ''hi'')]))]\<rparr>) \<and>
   load (empty_storage\<lparr>items := [STORAGE_KEY \<mapsto> JSON_stringify plain_host
        (JArray ([message (js ''assistant'') welcome_text] @ [message (js ''user'') (js ''hi'')]))]\<rparr>) =
     Inr (JArray [message (js ''assistant'') welcome_text, message (js ''user'') (js ''hi'')])"
proof -
  have b: "list_all stable [message (js ''assistant'') welcome_text]"
    by (simp add: stable_message)
  have c: "length (JSON_stringify plain_host
      (JArray ([message (js ''assistant'') welcome_text] @ [message (js ''user'') (js ''hi'')])))
      \<le> 100000"
  proof -
    have q: "length (quote t) \<le> 6 * length t + 2" for t
      using quote_chars_length [of t] by (simp add: quote_def)
    show ?thesis
      using q [of welcome_text] q [of "js ''hi''"] q [of "js ''role''"]
        q [of "js ''content''"] q [of "js ''assistant''"] q [of "js ''user''"]
      by (simp add: message_def) (simp add: js_def welcome_text_def)
  qed
  have d: "setItem (localStorage fresh_session) STORAGE_KEY
     (JSON_stringify plain_host
        (JArray ([message (js ''assistant'') welcome_text] @ [message (js ''user'') (js ''hi'')]))) =
     Inr (empty_storage\<lparr>items := [STORAGE_KEY \<mapsto> JSON_stringify plain_host
        (JArray ([message (js ''assistant'') welcome_text] @ [message (js ''user'') (js ''hi'')]))]\<rparr>)"
    using c by (simp add: setItem_def fresh_session_def empty_storage_def)
  show ?thesis
    using append_load_round_trip [OF fresh_session_accepted(3) b d] b d
    by (simp add: fresh_session_accepted)
qed

section \<open>One exchange at a time\<close>

lemma sendMessage_begin_flag:
  "sendMessage_begin h s = (s', Started el) \<Longrightarrow> \<not> isProcessing s \<and> isProcessing s'"
  by (auto simp add: sendMessage_begin_def Let_def addMessageToChat_def saveChatHistory_def
      split: if_splits sum.splits option.splits)

lemma sendMessage_begin_busy: "isProcessing s \<Longrightarrow> sendMessage_begin h s = (s, Rejected)"
  by (simp add: sendMessage_begin_def)

lemma step_one_in_flight:
  assumes "one_in_flight w"
  shows "one_in_flight (step h e w)"
proof -
  obtain s fl where w: "w = (s, fl)" by (cases w)
  from assms w have len: "length fl \<le> 1" and busy: "fl \<noteq> [] \<Longrightarrow> isProcessing s"
    by (auto simp add: one_in_flight_def split: if_splits)
  show ?thesis
  proof (cases e)
    case Submit
    show ?thesis
    proof (cases "sendMessage_begin h s")
      case (Pair s' r)
      show ?thesis
      proof (cases r)
        case Rejected
        with Pair have "s' = s"
          by (auto simp add: sendMessage_begin_def Let_def split: if_splits sum.splits)
        with Pair Rejected Submit w assms show ?thesis by simp
      next
        case (Thrown x)
        from Pair Thrown have "\<not> isProcessing s"
          by (auto simp add: sendMessage_begin_def Let_def split: if_splits)
        with busy have "fl = []" by auto
        with Pair Thrown Submit w show ?thesis by (simp add: one_in_flight_def)
      next
        case (Started el)
        from sendMessage_begin_flag [OF Pair [unfolded Started]]
        have f: "\<not> isProcessing s" "isProcessing s'" by simp_all
        with busy have "fl = []" by auto
        with Pair Started Submit w f show ?thesis by (simp add: one_in_flight_def)
      qed
    qed
  next
    case (Typed t)
    with w len busy show ?thesis by (auto simp add: one_in_flight_def)
  next
    case (Responds i net)
    show ?thesis
    proof (cases fl)
      case Nil
      with Responds w show ?thesis by (simp add: one_in_flight_def)
    next
      case (Cons p ps)
      with len have ps: "ps = []" by simp
      from busy Cons have b: "isProcessing s" by simp
      show ?thesis
        using Responds w Cons ps b
        by (cases i; cases p) (auto simp add: one_in_flight_def split: sum.splits)
    qed
  next
    case (Reads i)
    show ?thesis
    proof (cases fl)
      case Nil
      with Reads w show ?thesis by (simp add: one_in_flight_def)
    next
      case (Cons p ps)
      with len have ps: "ps = []" by simp
      from busy Cons have b: "isProcessing s" by simp
      have chunk: "isProcessing s'" if "process_chunk h el c (s, t) = (s', t')" for el c t s' t'
        using process_chunk_frame [of s h el c t] b that by (simp add: frame_def)
      show ?thesis
        using Reads w Cons ps b chunk
        by (cases i; cases p)
          (auto simp add: one_in_flight_def split: list.splits read_event.splits prod.splits option.splits)
    qed
  qed
qed

lemma run_one_in_flight: "one_in_flight w \<Longrightarrow> one_in_flight (run h evs w)"
  unfolding run_def
  by (induction evs arbitrary: w) (simp_all add: step_one_in_flight)


lemma run_Cons: "run h (e # evs) w = run h evs (step h e w)"
  by (simp add: run_def)

lemma run_append: "run h (es @ es') w = run h es' (run h es w)"
  by (simp add: run_def)

lemma run_idle: "run h (replicate k (Reads 0)) (s, []) = (s, [])"
  by (induction k) (simp_all add: run_def)

lemma run_responds_idle: "step h (Responds 0 net) (s, []) = (s, [])"
  by simp

text \<open>Run without interleaving, the reads of one exchange are the read loop and what follows it.\<close>

lemma run_reads:
  "run h (replicate (Suc (length evs)) (Reads 0)) (s, [AwaitingRead el t evs]) =
     (case read_loop h el evs (s, t) of
        (s1, Inl e) \<Rightarrow> (fail_exchange h s1, [])
      | (s1, Inr responseText) \<Rightarrow>
          (case push_assistant h responseText s1 of
             (s2, None) \<Rightarrow> (finally_block s2, [])
           | (s2, Some e) \<Rightarrow> (fail_exchange h s2, [])))"
proof (induction evs arbitrary: s t)
  case Nil
  show ?case
    by (simp add: run_def split: prod.splits option.splits)
next
  case (Cons ev evs)
  show ?case
  proof (cases ev)
    case (Chunk c)
    obtain s' t' where st: "process_chunk h el c (s, t) = (s', t')"
      by (cases "process_chunk h el c (s, t)")
    have "run h (replicate (Suc (length (ev # evs))) (Reads 0)) (s, [AwaitingRead el t (ev # evs)]) =
        run h (replicate (Suc (length evs)) (Reads 0)) (s', [AwaitingRead el t' evs])"
      by (simp add: run_Cons Chunk st del: replicate.simps)
        (simp add: run_Cons Chunk st)
    with Cons.IH [of s' t'] Chunk st show ?thesis by simp
  next
    case ReadFails
    have "run h (replicate (Suc (length (ev # evs))) (Reads 0)) (s, [AwaitingRead el t (ev # evs)]) =
        run h (replicate (Suc (length evs)) (Reads 0)) (fail_exchange h s, [])"
      by (simp add: run_Cons ReadFails)
    then show ?thesis
      by (simp only: run_idle) (simp add: ReadFails)
  qed
qed

text \<open>
  One exchange run by steps, with nothing in between, ends in the session that
  \<open>sendMessage\<close> gives.
\<close>

lemma run_exchange:
  "run h ([Submit, Responds 0 net] @ replicate (reads_needed net) (Reads 0)) (s, []) =
     (fst (sendMessage h net s), [])"
proof (cases "sendMessage_begin h s")
  case (Pair s1 r)
  show ?thesis
  proof (cases r)
    case Rejected
    with Pair show ?thesis
      by (simp add: run_Cons run_idle sendMessage_def)
  next
    case (Thrown e)
    with Pair show ?thesis
      by (simp add: run_Cons run_idle sendMessage_def)
  next
    case (Started el)
    show ?thesis
    proof (cases "await_response net")
      case (Inl e)
      have "run h ([Submit, Responds 0 net] @ replicate (reads_needed net) (Reads 0)) (s, []) =
          run h (replicate (reads_needed net) (Reads 0)) (fail_exchange h s1, [])"
        by (simp add: run_Cons Pair Started Inl)
      then show ?thesis
        by (simp only: run_idle)
          (simp add: sendMessage_def Pair Started settle_def try_block_def Inl fail_exchange_def
            split: prod.splits)
    next
      case (Inr evs)
      then have net: "net = Response True (Some evs)"
        by (cases net) (auto split: if_splits option.splits)
      have "run h ([Submit, Responds 0 net] @ replicate (reads_needed net) (Reads 0)) (s, []) =
          run h (replicate (Suc (length evs)) (Reads 0)) (s1, [AwaitingRead el [] evs])"
        by (simp add: run_Cons Pair Started Inr net del: replicate.simps)
      then show ?thesis
        by (simp only: run_reads)
          (simp add: sendMessage_def Pair Started settle_def try_block_def Inr fail_exchange_def
            split: prod.splits sum.splits option.splits)
    qed
  qed
qed


text \<open>
  C6. If \<^verbatim>\<open>isProcessing\<close> is set, a submission does nothing: \<^verbatim>\<open>sendMessage\<close> returns at
  once with the session unchanged (same history, same log of requests), whatever is in
  the input and whatever the network would do; as an event it leaves the exchanges in
  flight as they were. And from a page where \<^verbatim>\<open>isProcessing\<close> is not set and nothing is in
  flight, after any sequence of events there is at most one exchange in flight, and
  \<^verbatim>\<open>isProcessing\<close> is set whenever there is one: no second request is ever issued while
  one is outstanding.
\<close>

theorem busy_submit_noop:
  "(isProcessing s \<longrightarrow>
      sendMessage_begin h s = (s, Rejected) \<and> sendMessage h net s = (s, None) \<and>
      step h Submit (s, fl) = (s, fl)) \<and>
   (\<not> isProcessing s0 \<longrightarrow>
      length (snd (run h evs (s0, []))) \<le> 1 \<and>
      (snd (run h evs (s0, [])) \<noteq> [] \<longrightarrow> isProcessing (fst (run h evs (s0, [])))))"
proof -
  have "one_in_flight (run h evs (s0, []))" if "\<not> isProcessing s0"
    by (rule run_one_in_flight) (simp add: one_in_flight_def)
  then show ?thesis
    by (auto simp add: sendMessage_begin_busy sendMessage_def one_in_flight_def split: if_splits)
qed

theorem busy_submit_noop_witness:
  "isProcessing (fresh_session\<lparr>isProcessing := True\<rparr>) \<and>
   sendMessage plain_host (Response True (Some [])) (fresh_session\<lparr>isProcessing := True\<rparr>) =
     (fresh_session\<lparr>isProcessing := True\<rparr>, None) \<and>
   \<not> isProcessing fresh_session \<and>
   snd (run plain_host [Submit, Submit, Typed (js ''more''), Submit] (fresh_session, [])) =
     [AwaitingResponse 1] \<and>
   isProcessing (fst (run plain_host [Submit, Submit, Typed (js ''more''), Submit] (fresh_session, []))) \<and>
   length (requests (fst (run plain_host [Submit, Submit, Typed (js ''more''), Submit]
     (fresh_session, [])))) = 1"
proof -
  have a: "trim (userInput_value fresh_session) \<noteq> []"
    by (simp add: fresh_session_accepted js_def)
  from sendMessage_begin_accepted [OF a fresh_session_accepted(2,3), of plain_host]
  obtain s1 where s1: "sendMessage_begin plain_host fresh_session = (s1, Started 1)"
    and busy: "isProcessing s1" and req: "length (requests s1) = 1"
    by (auto simp add: fresh_session_def)
  have r: "run plain_host [Submit, Submit, Typed (js ''more''), Submit] (fresh_session, []) =
      (s1\<lparr>userInput_value := js ''more''\<rparr>, [AwaitingResponse 1])"
    using busy by (simp add: run_def s1 sendMessage_begin_busy)
  show ?thesis
    using busy_submit_noop [of "fresh_session\<lparr>isProcessing := True\<rparr>" plain_host
        "Response True (Some [])" "[]" fresh_session
        "[Submit, Submit, Typed (js ''more''), Submit]"]
    by (simp add: r busy req fresh_session_accepted)
qed

end
